theory Spec2Isabelle
  imports Complex_Main "HOL-Library.Log_Nat"
begin

section \<open>JavaScript numbers and values\<close>

text \<open>
  The scoring code of \<^verbatim>\<open>src/components/WeatherDashboard.tsx\<close> computes on JavaScript
  numbers, which are IEEE 754 binary64 values. A number is modelled as \<open>NaN\<close>, one of
  the two infinities, or a finite value carried as a real; every arithmetic operation
  rounds its exact result to the nearest binary64 value, ties to the even significand,
  and overflows to an infinity. The two zeros are identified (a zero divisor counts as
  \<open>+0\<close>). The special values follow ECMAScript: every comparison with \<open>NaN\<close> is false,
  \<open>Infinity - Infinity\<close>, \<open>0 * Infinity\<close>, \<open>Infinity / Infinity\<close> and \<open>0 / 0\<close> are
  \<open>NaN\<close>.
\<close>

datatype number = NaN | NegInf | Fin real | PosInf

text \<open>The values a reading taken from the weather service's JSON can have at run time.\<close>

datatype jsvalue = Null | Undefined | Num number

fun ToNumber :: "jsvalue \<Rightarrow> number" where
  "ToNumber Null = Fin 0"
| "ToNumber Undefined = NaN"
| "ToNumber (Num n) = n"

text \<open>\<^verbatim>\<open>value === null\<close>\<close>

fun is_null :: "jsvalue \<Rightarrow> bool" where
  "is_null Null = True"
| "is_null Undefined = False"
| "is_null (Num n) = False"

text \<open>The global \<^verbatim>\<open>isNaN\<close>: its argument is converted to a number first.\<close>

definition isNaN :: "jsvalue \<Rightarrow> bool" where
  "isNaN v = (ToNumber v = NaN)"

text \<open>\<^verbatim>\<open>a < b\<close> on numbers.\<close>

fun js_lt :: "number \<Rightarrow> number \<Rightarrow> bool" where
  "js_lt NaN b = False"
| "js_lt NegInf NaN = False"
| "js_lt NegInf NegInf = False"
| "js_lt NegInf (Fin y) = True"
| "js_lt NegInf PosInf = True"
| "js_lt (Fin x) NaN = False"
| "js_lt (Fin x) NegInf = False"
| "js_lt (Fin x) (Fin y) = (x < y)"
| "js_lt (Fin x) PosInf = True"
| "js_lt PosInf b = False"

text \<open>
  \<^verbatim>\<open>a > b\<close> is \<open>b < a\<close>; \<^verbatim>\<open>a <= b\<close> is "not \<open>b < a\<close>" and \<^verbatim>\<open>a >= b\<close> is
  "not \<open>a < b\<close>", each false as soon as one operand is \<open>NaN\<close>.
\<close>

definition js_gt :: "number \<Rightarrow> number \<Rightarrow> bool" where
  "js_gt a b = js_lt b a"

definition js_le :: "number \<Rightarrow> number \<Rightarrow> bool" where
  "js_le a b = (a \<noteq> NaN \<and> b \<noteq> NaN \<and> \<not> js_lt b a)"

definition js_ge :: "number \<Rightarrow> number \<Rightarrow> bool" where
  "js_ge a b = (a \<noteq> NaN \<and> b \<noteq> NaN \<and> \<not> js_lt a b)"

subsection \<open>Rounding to binary64\<close>

text \<open>Rounding a real to the nearest integer, a tie to the even one.\<close>

definition rne :: "real \<Rightarrow> int" where
  "rne x =
     (if x - of_int \<lfloor>x\<rfloor> < 1 / 2 then \<lfloor>x\<rfloor>
      else if 1 / 2 < x - of_int \<lfloor>x\<rfloor> then \<lfloor>x\<rfloor> + 1
      else if even \<lfloor>x\<rfloor> then \<lfloor>x\<rfloor> else \<lfloor>x\<rfloor> + 1)"

text \<open>
  The smallest positive binary64 value is \<open>2 ^ -1074\<close>; magnitudes are measured in
  this unit. The largest finite value is below \<open>2 ^ 1024\<close>.
\<close>

definition denorm :: nat where
  "denorm = 1074"

definition emax :: nat where
  "emax = 1024"

text \<open>
  The distance between neighbouring binary64 values at the magnitude \<open>X\<close>, both in
  units of \<open>2 ^ -1074\<close>: one unit below \<open>2 ^ 53\<close> units (the subnormal numbers and
  the first binade of normal ones), and twice as much in each following binade, so that
  a significand has 53 bits.
\<close>

definition quantum :: "real \<Rightarrow> real" where
  "quantum X = 2 ^ nat (bitlen \<lfloor>X\<rfloor> - 53)"

text \<open>A non-negative magnitude rounded to a multiple of its quantum.\<close>

definition rq :: "real \<Rightarrow> real" where
  "rq X = of_int (rne (X / quantum X)) * quantum X"

text \<open>The binary64 value nearest to a real, before the overflow test.\<close>

definition rd :: "real \<Rightarrow> real" where
  "rd x = sgn x * rq (\<bar>x\<bar> * 2 ^ denorm) / 2 ^ denorm"

text \<open>
  The result of an operation whose exact value is \<open>x\<close>: the rounded value, or an
  infinity when the rounded value is \<open>2 ^ 1024\<close> or more.
\<close>

definition fl :: "real \<Rightarrow> number" where
  "fl x = (if 2 ^ emax \<le> \<bar>rd x\<bar> then (if x < 0 then NegInf else PosInf) else Fin (rd x))"

text \<open>The reals that are binary64 values: rounding leaves them as they are.\<close>

definition is_double :: "real \<Rightarrow> bool" where
  "is_double x = (fl x = Fin x)"

subsection \<open>Arithmetic\<close>

fun js_neg :: "number \<Rightarrow> number" where
  "js_neg NaN = NaN"
| "js_neg NegInf = PosInf"
| "js_neg (Fin x) = Fin (- x)"
| "js_neg PosInf = NegInf"

fun js_add :: "number \<Rightarrow> number \<Rightarrow> number" where
  "js_add NaN b = NaN"
| "js_add NegInf NaN = NaN"
| "js_add NegInf NegInf = NegInf"
| "js_add NegInf (Fin y) = NegInf"
| "js_add NegInf PosInf = NaN"
| "js_add (Fin x) NaN = NaN"
| "js_add (Fin x) NegInf = NegInf"
| "js_add (Fin x) (Fin y) = fl (x + y)"
| "js_add (Fin x) PosInf = PosInf"
| "js_add PosInf NaN = NaN"
| "js_add PosInf NegInf = NaN"
| "js_add PosInf (Fin y) = PosInf"
| "js_add PosInf PosInf = PosInf"

definition js_sub :: "number \<Rightarrow> number \<Rightarrow> number" where
  "js_sub a b = js_add a (js_neg b)"

text \<open>The sign of a non-\<open>NaN\<close> number, zero counted as positive.\<close>

fun negative :: "number \<Rightarrow> bool" where
  "negative NaN = False"
| "negative NegInf = True"
| "negative (Fin x) = (x < 0)"
| "negative PosInf = False"

definition signed_inf :: "bool \<Rightarrow> number" where
  "signed_inf neg = (if neg then NegInf else PosInf)"

fun js_mul :: "number \<Rightarrow> number \<Rightarrow> number" where
  "js_mul NaN b = NaN"
| "js_mul a NaN = NaN"
| "js_mul (Fin x) (Fin y) = fl (x * y)"
| "js_mul (Fin x) b = (if x = 0 then NaN else signed_inf (negative (Fin x) \<noteq> negative b))"
| "js_mul a (Fin y) = (if y = 0 then NaN else signed_inf (negative a \<noteq> negative (Fin y)))"
| "js_mul a b = signed_inf (negative a \<noteq> negative b)"

fun js_div :: "number \<Rightarrow> number \<Rightarrow> number" where
  "js_div NaN b = NaN"
| "js_div a NaN = NaN"
| "js_div (Fin x) (Fin y) =
     (if y = 0 then (if x = 0 then NaN else signed_inf (x < 0)) else fl (x / y))"
| "js_div (Fin x) b = Fin 0"
| "js_div a (Fin y) = signed_inf (negative a \<noteq> negative (Fin y))"
| "js_div a b = NaN"

text \<open>
  \<^verbatim>\<open>Math.round\<close>: the integer closest to the argument, the one towards \<open>+Infinity\<close>
  at a tie, which is \<open>\<lfloor>x + 1/2\<rfloor>\<close>, HOL's \<^const>\<open>round\<close>. The function is exact: the
  integer nearest to a binary64 value is a binary64 value.
\<close>

fun Math_round :: "number \<Rightarrow> number" where
  "Math_round (Fin x) = Fin (of_int (round x))"
| "Math_round a = a"

text \<open>\<^verbatim>\<open>Math.min\<close> of two numbers.\<close>

definition Math_min :: "number \<Rightarrow> number \<Rightarrow> number" where
  "Math_min a b = (if a = NaN \<or> b = NaN then NaN else if js_lt b a then b else a)"

section \<open>The scoring functions\<close>

record thresholds =
  min_t :: number
  max_t :: number

text \<open>
  \<^verbatim>\<open>calculateProbability(value, thresholds, baseProb, maxProb, higherValuesGiveHigherProb)\<close>.
  Every call in the source passes all five arguments, so the defaults of the last three
  are not modelled.
\<close>

definition calculateProbability ::
  "jsvalue \<Rightarrow> thresholds \<Rightarrow> number \<Rightarrow> number \<Rightarrow> bool \<Rightarrow> number" where
  "calculateProbability value thresholds baseProb maxProb higherValuesGiveHigherProb =
     (if is_null value \<or> isNaN value then baseProb
      else if higherValuesGiveHigherProb then
        (if js_le (ToNumber value) (min_t thresholds) then baseProb
         else if js_ge (ToNumber value) (max_t thresholds) then maxProb
         else Math_round
           (js_add baseProb
              (js_mul
                 (js_div (js_sub (ToNumber value) (min_t thresholds))
                    (js_sub (max_t thresholds) (min_t thresholds)))
                 (js_sub maxProb baseProb))))
      else
        (if js_le (ToNumber value) (min_t thresholds) then maxProb
         else if js_ge (ToNumber value) (max_t thresholds) then baseProb
         else Math_round
           (js_sub maxProb
              (js_mul
                 (js_div (js_sub (ToNumber value) (min_t thresholds))
                    (js_sub (max_t thresholds) (min_t thresholds)))
                 (js_sub maxProb baseProb)))))"

datatype severity = Low | Medium | High

definition getSeverity :: "number \<Rightarrow> severity" where
  "getSeverity probability =
     (if js_ge probability (Fin 70) then High
      else if js_ge probability (Fin 40) then Medium
      else Low)"

section \<open>The scores of one weather query\<close>

text \<open>
  The part of \<^verbatim>\<open>fetchWeather\<close> after the response has been read: \<open>maxTemp\<close>,
  \<open>minTemp\<close>, \<open>rain\<close> and \<open>wind\<close> are the first entries of the four daily series.
  Each \<^verbatim>\<open>const\<close> of the source is a definition over the variables it reads.
\<close>

definition hotProb :: "jsvalue \<Rightarrow> number" where
  "hotProb maxTemp =
     calculateProbability maxTemp \<lparr>min_t = Fin 25, max_t = Fin 40\<rparr> (Fin 10) (Fin 95) True"

definition coldProb :: "jsvalue \<Rightarrow> number" where
  "coldProb minTemp =
     calculateProbability minTemp \<lparr>min_t = Fin (- 5), max_t = Fin 10\<rparr> (Fin 10) (Fin 95) False"

definition wetProb :: "jsvalue \<Rightarrow> number" where
  "wetProb rain =
     calculateProbability rain \<lparr>min_t = Fin 1, max_t = Fin 25\<rparr> (Fin 10) (Fin 95) True"

definition windyProb :: "jsvalue \<Rightarrow> number" where
  "windyProb wind =
     calculateProbability wind \<lparr>min_t = Fin 20, max_t = Fin 60\<rparr> (Fin 10) (Fin 95) True"

definition stormProb :: "jsvalue \<Rightarrow> jsvalue \<Rightarrow> number" where
  "stormProb rain wind =
     calculateProbability (Num (js_mul (ToNumber rain) (ToNumber wind)))
       \<lparr>min_t = Fin 50, max_t = Fin 500\<rparr> (Fin 5) (Fin 80) True"

text \<open>
  \<^verbatim>\<open>Math.min(99, Math.round((hotProb + wetProb) * 0.6 + (windyProb > 70 ? 10 : 0)))\<close>,
  over the three scores it reads. The literal \<^verbatim>\<open>0.6\<close> denotes the binary64 value
  nearest to six tenths.
\<close>

definition uncomfortableProb :: "number \<Rightarrow> number \<Rightarrow> number \<Rightarrow> number" where
  "uncomfortableProb hot wet windy =
     Math_min (Fin 99)
       (Math_round
          (js_add (js_mul (js_add hot wet) (fl 0.6))
             (if js_gt windy (Fin 70) then Fin 10 else Fin 0)))"

text \<open>
  An entry of the \<^verbatim>\<open>processed\<close> array, without the fields that only carry the
  presentation (icon, description, the raw reading and its unit).
\<close>

record WeatherData =
  condition :: string
  probability :: number
  severity :: severity

definition entry :: "string \<Rightarrow> number \<Rightarrow> WeatherData" where
  "entry c p = \<lparr>condition = c, probability = p, severity = getSeverity p\<rparr>"

definition processed :: "jsvalue \<Rightarrow> jsvalue \<Rightarrow> jsvalue \<Rightarrow> jsvalue \<Rightarrow> WeatherData list" where
  "processed maxTemp minTemp rain wind =
     [entry ''Sunny'' (hotProb maxTemp),
      entry ''Cold'' (coldProb minTemp),
      entry ''Rainy'' (wetProb rain),
      entry ''Wind'' (windyProb wind),
      entry ''Cloudy'' (stormProb rain wind),
      entry ''Uncomfortable''
        (uncomfortableProb (hotProb maxTemp) (wetProb rain) (windyProb wind))]"

section \<open>Notions used to state and prove the properties\<close>

text \<open>The order of the severity bands: low, then medium, then high.\<close>

fun band :: "severity \<Rightarrow> nat" where
  "band Low = 0"
| "band Medium = 1"
| "band High = 2"

text \<open>
  The quotient \<open>(value - min) / (max - min)\<close> as the code computes it for a value inside
  the range from \<open>lo\<close> to \<open>hi\<close>, continued by \<open>0\<close> below the range and \<open>1\<close> above.
\<close>

fun fraction :: "real \<Rightarrow> real \<Rightarrow> number \<Rightarrow> real" where
  "fraction lo hi (Fin x) =
     (if x \<le> lo then 0 else if hi \<le> x then 1 else rd (rd (x - lo) / rd (hi - lo)))"
| "fraction lo hi PosInf = 1"
| "fraction lo hi a = 0"

text \<open>
  The number of binary places that bring a normal number into the range from \<open>2 ^ 52\<close>
  to \<open>2 ^ 53\<close>, where rounding to binary64 is rounding to an integer.
\<close>

definition shift :: "real \<Rightarrow> int" where
  "shift x =
     (if 1 \<le> \<bar>x\<bar> then 53 - bitlen \<lfloor>\<bar>x\<bar>\<rfloor> else 52 + bitlen (\<lceil>1 / \<bar>x\<bar>\<rceil> - 1))"

section \<open>Rounding: monotone, exact on binary64 values\<close>

lemma rne_of_int: "rne (of_int k) = k"
  by (simp add: rne_def)

lemma rne_floor: "\<lfloor>x\<rfloor> \<le> rne x \<and> rne x \<le> \<lfloor>x\<rfloor> + 1"
  by (simp add: rne_def)

lemma rne_mono:
  assumes "x \<le> y"
  shows "rne x \<le> rne y"
proof (cases "\<lfloor>x\<rfloor> = \<lfloor>y\<rfloor>")
  case True
  then show ?thesis using assms by (auto simp: rne_def)
next
  case False
  then have "\<lfloor>x\<rfloor> + 1 \<le> \<lfloor>y\<rfloor>"
    using floor_mono [OF assms] by linarith
  then show ?thesis
    using rne_floor [of x] rne_floor [of y] by linarith
qed

lemma rne_lower: "of_int a \<le> x \<Longrightarrow> a \<le> rne x"
  using rne_mono [of "of_int a" x] by (simp add: rne_of_int)

lemma rne_upper: "x \<le> of_int b \<Longrightarrow> rne x \<le> b"
  using rne_mono [of x "of_int b"] by (simp add: rne_of_int)

lemma quantum_pos: "0 < quantum X"
  by (simp add: quantum_def)

lemma bitlen_mono: "a \<le> b \<Longrightarrow> bitlen a \<le> bitlen b"
  by (simp add: bitlen_def floorlog_mono)

lemma quantum_mono:
  assumes "X \<le> Y"
  shows "quantum X \<le> quantum Y"
proof -
  have "bitlen \<lfloor>X\<rfloor> \<le> bitlen \<lfloor>Y\<rfloor>"
    using assms by (intro bitlen_mono floor_mono)
  then show ?thesis
    by (simp add: quantum_def power_increasing)
qed

lemma below_top:
  assumes "0 \<le> X"
  shows "X < 2 ^ 53 * quantum X"
proof -
  have "\<lfloor>X\<rfloor> < 2 ^ nat (bitlen \<lfloor>X\<rfloor>)"
  proof (cases "0 < \<lfloor>X\<rfloor>")
    case True
    then show ?thesis using bitlen_bounds [of "\<lfloor>X\<rfloor>"] by simp
  next
    case False
    then have "\<lfloor>X\<rfloor> \<le> 0" by simp
    also have "(0::int) < 2 ^ nat (bitlen \<lfloor>X\<rfloor>)" by simp
    finally show ?thesis .
  qed
  then have "\<lfloor>X\<rfloor> + 1 \<le> 2 ^ nat (bitlen \<lfloor>X\<rfloor>)" by simp
  then have "of_int (\<lfloor>X\<rfloor> + 1) \<le> (of_int (2 ^ nat (bitlen \<lfloor>X\<rfloor>)) :: real)"
    by (rule of_int_le_iff [THEN iffD2])
  then have "X < 2 ^ nat (bitlen \<lfloor>X\<rfloor>)"
    by (simp add: less_le_trans [OF floor_correct [THEN conjunct2]])
  also have "(2::real) ^ nat (bitlen \<lfloor>X\<rfloor>) \<le> 2 ^ (53 + nat (bitlen \<lfloor>X\<rfloor> - 53))"
    by (intro power_increasing) auto
  finally show ?thesis
    by (simp add: quantum_def power_add)
qed


lemma above_bottom:
  assumes "1 < quantum X"
  shows "2 ^ 52 * quantum X \<le> X"
proof -
  define k where "k = nat (bitlen \<lfloor>X\<rfloor> - 53)"
  have q: "quantum X = 2 ^ k" by (simp add: quantum_def k_def)
  have "k \<noteq> 0" using assms q by (cases k) auto
  then have b: "bitlen \<lfloor>X\<rfloor> = 53 + int k" by (simp add: k_def)
  then have pos: "0 < \<lfloor>X\<rfloor>"
    using bitlen_eq_zero_iff [of "\<lfloor>X\<rfloor>"] by linarith
  have "nat (bitlen \<lfloor>X\<rfloor> - 1) = 52 + k" using b by simp
  then have "(2::int) ^ (52 + k) \<le> \<lfloor>X\<rfloor>"
    using bitlen_bounds [OF pos] by simp
  then have "of_int ((2::int) ^ (52 + k)) \<le> (of_int \<lfloor>X\<rfloor> :: real)"
    by (rule of_int_le_iff [THEN iffD2])
  also have "\<dots> \<le> X" by simp
  finally show ?thesis by (simp add: q power_add)
qed

lemma quantum_cases:
  assumes "X \<le> Y"
  shows "quantum X = quantum Y \<or> 2 * quantum X \<le> quantum Y"
proof -
  define j where "j = nat (bitlen \<lfloor>X\<rfloor> - 53)"
  define k where "k = nat (bitlen \<lfloor>Y\<rfloor> - 53)"
  have "bitlen \<lfloor>X\<rfloor> \<le> bitlen \<lfloor>Y\<rfloor>"
    using assms by (intro bitlen_mono floor_mono)
  then have "j \<le> k" by (simp add: j_def k_def)
  then consider "j = k" | "Suc j \<le> k" by linarith
  then show ?thesis
  proof cases
    case 1
    then show ?thesis by (simp add: quantum_def j_def k_def)
  next
    case 2
    then have "(2::real) ^ Suc j \<le> 2 ^ k" by (intro power_increasing) auto
    then show ?thesis by (simp add: quantum_def j_def k_def)
  qed
qed

lemma rq_nonneg: "0 \<le> X \<Longrightarrow> 0 \<le> rq X"
  unfolding rq_def using quantum_pos [of X] rne_lower [of 0 "X / quantum X"]
  by (simp add: zero_le_mult_iff)

lemma rq_mono:
  assumes "0 \<le> X" and "X \<le> Y"
  shows "rq X \<le> rq Y"
  using quantum_cases [OF assms(2)]
proof
  assume q: "quantum X = quantum Y"
  have "X / quantum Y \<le> Y / quantum Y"
    using assms(2) quantum_pos [of Y] by (simp add: divide_right_mono)
  then have "rne (X / quantum Y) \<le> rne (Y / quantum Y)" by (rule rne_mono)
  then show ?thesis
    using quantum_pos [of Y] by (simp add: rq_def q)
next
  assume q: "2 * quantum X \<le> quantum Y"
  have qx: "0 < quantum X" by (rule quantum_pos)
  have "X / quantum X \<le> of_int (2 ^ 53)"
    using below_top [OF assms(1)] qx by (simp add: divide_le_eq)
  then have "rne (X / quantum X) \<le> 2 ^ 53" by (rule rne_upper)
  then have "(of_int (rne (X / quantum X)) :: real) \<le> of_int (2 ^ 53)"
    by (rule of_int_le_iff [THEN iffD2])
  then have "rq X \<le> 2 ^ 53 * quantum X"
    using qx by (simp add: rq_def)
  also have "\<dots> \<le> 2 ^ 52 * quantum Y" using q by simp
  also have "\<dots> \<le> rq Y"
  proof -
    have "1 < quantum Y" using q qx
      using quantum_def [of X] by (smt (verit) one_le_power)
    then have "2 ^ 52 * quantum Y \<le> Y" by (rule above_bottom)
    then have "of_int (2 ^ 52) \<le> Y / quantum Y"
      using quantum_pos [of Y] by (simp add: le_divide_eq)
    then have "2 ^ 52 \<le> rne (Y / quantum Y)" by (rule rne_lower)
    then have "(of_int (2 ^ 52) :: real) \<le> of_int (rne (Y / quantum Y))"
      by (rule of_int_le_iff [THEN iffD2])
    then show ?thesis
      using quantum_pos [of Y] by (simp add: rq_def)
  qed
  finally show ?thesis .
qed


lemma rq_zero: "rq 0 = 0"
  by (simp add: rq_def rne_def)

lemma rd_zero: "rd 0 = 0"
  by (simp add: rd_def)

lemma rd_minus: "rd (- x) = - rd x"
  by (simp add: rd_def sgn_minus)

lemma rd_nonneg: "0 \<le> x \<Longrightarrow> 0 \<le> rd x"
  unfolding rd_def using rq_nonneg [of "\<bar>x\<bar> * 2 ^ denorm"]
  by (simp add: sgn_if)

lemma rd_mono_nonneg:
  assumes "0 \<le> x" and "x \<le> y"
  shows "rd x \<le> rd y"
proof (cases "x = 0")
  case True
  then show ?thesis using assms rd_nonneg [of y] by (simp add: rd_zero)
next
  case False
  then have "0 < x" "0 < y" using assms by simp_all
  moreover have "rq (\<bar>x\<bar> * 2 ^ denorm) \<le> rq (\<bar>y\<bar> * 2 ^ denorm)"
    using assms by (intro rq_mono) simp_all
  ultimately show ?thesis
    by (simp add: rd_def divide_right_mono)
qed

lemma rd_mono:
  assumes "x \<le> y"
  shows "rd x \<le> rd y"
proof -
  consider "0 \<le> x" | "x < 0" "0 \<le> y" | "y < 0" by linarith
  then show ?thesis
  proof cases
    case 1
    then show ?thesis using assms by (rule rd_mono_nonneg)
  next
    case 2
    have "rd x = - rd (- x)" by (simp add: rd_minus)
    moreover have "0 \<le> rd (- x)" using 2 by (intro rd_nonneg) simp
    moreover have "0 \<le> rd y" using 2 by (intro rd_nonneg)
    ultimately show ?thesis by simp
  next
    case 3
    have "rd (- y) \<le> rd (- x)"
      using 3 assms by (intro rd_mono_nonneg) simp_all
    then show ?thesis by (simp add: rd_minus)
  qed
qed

lemma rq_exact:
  assumes "X / quantum X = of_int n"
  shows "rq X = X"
proof -
  have "X = of_int n * quantum X"
    using assms quantum_pos [of X] by (simp add: field_simps)
  then show ?thesis
    unfolding rq_def assms rne_of_int by simp
qed

lemma bitlen_eqI:
  assumes "2 ^ n \<le> a" and "a < 2 ^ Suc n"
  shows "bitlen a = int (Suc n)"
proof -
  have "bitlen a \<le> int (Suc n)"
    using assms(2) by (simp add: bitlen_le_iff_power nat_add_distrib)
  moreover have "\<not> bitlen a \<le> int n"
    using assms(1) by (simp add: bitlen_le_iff_power)
  ultimately show ?thesis by simp
qed

lemma quantum_binade:
  assumes "2 ^ (52 + k) \<le> X" and "X < 2 ^ (53 + k)"
  shows "quantum X = 2 ^ k"
proof -
  have "(2::int) ^ (52 + k) \<le> \<lfloor>X\<rfloor>"
    using assms(1) by (simp add: le_floor_iff)
  moreover have "\<lfloor>X\<rfloor> < 2 ^ Suc (52 + k)"
    using assms(2) by (simp add: floor_less_iff)
  ultimately have "bitlen \<lfloor>X\<rfloor> = int (Suc (52 + k))"
    by (rule bitlen_eqI)
  then show ?thesis by (simp add: quantum_def)
qed

lemma quantum_small:
  assumes "X < 2 ^ 53"
  shows "quantum X = 1"
proof -
  have "\<lfloor>X\<rfloor> < 2 ^ 53"
    using assms by (simp add: floor_less_iff)
  then have "bitlen \<lfloor>X\<rfloor> \<le> 53"
    by (simp add: bitlen_le_iff_power)
  then show ?thesis by (simp add: quantum_def)
qed


lemma rd_normal:
  assumes "2 ^ 52 \<le> \<bar>x\<bar> * 2 ^ p" and "\<bar>x\<bar> * 2 ^ p < 2 ^ 53" and "p \<le> denorm"
  shows "rd x = sgn x * of_int (rne (\<bar>x\<bar> * 2 ^ p)) / 2 ^ p"
proof -
  define k where "k = denorm - p"
  define X where "X = \<bar>x\<bar> * 2 ^ denorm"
  have S: "(2::real) ^ denorm = 2 ^ p * 2 ^ k"
    using assms(3) by (simp add: k_def power_add [symmetric])
  have X: "X = \<bar>x\<bar> * 2 ^ p * 2 ^ k"
    by (simp add: X_def S)
  have "2 ^ 52 * 2 ^ k \<le> X"
    unfolding X using assms(1) by (intro mult_right_mono) simp_all
  moreover have "X < 2 ^ 53 * 2 ^ k"
    unfolding X using assms(2) by (intro mult_strict_right_mono) simp_all
  ultimately have q: "quantum X = 2 ^ k"
    by (intro quantum_binade) (simp_all add: power_add)
  have "X / 2 ^ k = \<bar>x\<bar> * 2 ^ p"
    by (simp add: X)
  then have "X / quantum X = \<bar>x\<bar> * 2 ^ p"
    by (simp only: q)
  then have "rq X = of_int (rne (\<bar>x\<bar> * 2 ^ p)) * 2 ^ k"
    by (simp add: rq_def q)
  then have "rq X / 2 ^ denorm = of_int (rne (\<bar>x\<bar> * 2 ^ p)) / 2 ^ p"
    by (simp add: S)
  then have "sgn x * (rq X / 2 ^ denorm) = sgn x * (of_int (rne (\<bar>x\<bar> * 2 ^ p)) / 2 ^ p)"
    by simp
  then show ?thesis
    by (simp add: rd_def X_def)
qed

lemma rd_subnormal:
  assumes "\<bar>x\<bar> * 2 ^ denorm < 2 ^ 53"
  shows "rd x = sgn x * of_int (rne (\<bar>x\<bar> * 2 ^ denorm)) / 2 ^ denorm"
  using quantum_small [OF assms] by (simp add: rd_def rq_def)

lemma rq_dyadic:
  fixes m :: int
  assumes "0 \<le> m" and "m < 2 ^ 53"
  shows "rq (of_int m * 2 ^ i) = of_int m * 2 ^ i"
proof (cases "m = 0")
  case True
  then show ?thesis by (simp add: rq_zero)
next
  case False
  then have pos: "0 < m" using assms(1) by simp
  define X :: real where "X = of_int m * 2 ^ i"
  have fl: "\<lfloor>X\<rfloor> = m * 2 ^ i"
  proof -
    have "X = of_int (m * 2 ^ i)" by (simp add: X_def)
    then show ?thesis by (simp only: floor_of_int)
  qed
  have b: "bitlen m \<le> 53"
    using assms(2) by (simp add: bitlen_le_iff_power)
  define k where "k = nat (bitlen m + int i - 53)"
  have q: "quantum X = 2 ^ k"
    by (simp add: quantum_def fl bitlen_pow2 [OF pos] k_def)
  have "k \<le> i" using b by (simp add: k_def)
  then have "(2::real) ^ i = 2 ^ (i - k) * 2 ^ k"
    by (simp add: power_add [symmetric])
  then have "X / 2 ^ k = of_int (m * 2 ^ (i - k))"
    by (simp add: X_def)
  then have "X / quantum X = of_int (m * 2 ^ (i - k))"
    by (simp only: q)
  then show ?thesis
    unfolding X_def [symmetric] by (rule rq_exact)
qed

lemma rd_dyadic:
  fixes m :: int
  assumes "\<bar>m\<bar> < 2 ^ 53" and "j \<le> denorm"
  shows "rd (of_int m / 2 ^ j) = of_int m / 2 ^ j"
proof -
  define i where "i = denorm - j"
  have S: "(2::real) ^ denorm = 2 ^ j * 2 ^ i"
    using assms(2) by (simp add: i_def power_add [symmetric])
  have "\<bar>of_int m / 2 ^ j\<bar> * 2 ^ denorm = of_int \<bar>m\<bar> * (2::real) ^ i"
    by (simp add: S abs_divide)
  moreover have "rq (of_int \<bar>m\<bar> * 2 ^ i) = of_int \<bar>m\<bar> * 2 ^ i"
    using assms(1) by (intro rq_dyadic) simp_all
  ultimately have "rd (of_int m / 2 ^ j) = sgn (of_int m / 2 ^ j) * (of_int \<bar>m\<bar> * 2 ^ i) / 2 ^ denorm"
    by (simp add: rd_def)
  also have "\<dots> = sgn (of_int m) * of_int \<bar>m\<bar> / 2 ^ j"
    by (simp add: S sgn_divide)
  also have "\<dots> = of_int m / 2 ^ j"
    by (simp add: sgn_if)
  finally show ?thesis .
qed

lemma rd_int:
  fixes m :: int
  assumes "\<bar>m\<bar> < 2 ^ 53"
  shows "rd (of_int m) = of_int m"
  using rd_dyadic [OF assms, of 0] by simp


lemma rd_pow2: "rd (2 ^ n) = 2 ^ n"
proof -
  have "rq (of_int 1 * 2 ^ (n + denorm)) = of_int 1 * 2 ^ (n + denorm)"
    by (intro rq_dyadic) simp_all
  then show ?thesis
    by (simp add: rd_def power_add)
qed

lemma rd_grid: "\<exists>k::int. rd x = of_int k / 2 ^ denorm"
proof -
  define X where "X = \<bar>x\<bar> * 2 ^ denorm"
  define n where "n = nat (bitlen \<lfloor>X\<rfloor> - 53)"
  have "rq X = of_int (rne (X / quantum X) * 2 ^ n)"
    by (simp add: rq_def quantum_def n_def)
  then have "rd x = of_int ((if x < 0 then - 1 else if x = 0 then 0 else 1) * (rne (X / quantum X) * 2 ^ n)) / 2 ^ denorm"
    by (simp add: rd_def X_def sgn_if)
  then show ?thesis ..
qed

lemma fl_finite: "\<bar>rd x\<bar> < 2 ^ emax \<Longrightarrow> fl x = Fin (rd x)"
  by (simp add: fl_def)

lemma fl_between:
  assumes "a \<le> x" and "x \<le> b" and "rd a = a" and "rd b = b"
    and "\<bar>a\<bar> < 2 ^ emax" and "\<bar>b\<bar> < 2 ^ emax"
  shows "fl x = Fin (rd x) \<and> a \<le> rd x \<and> rd x \<le> b"
proof -
  have "a \<le> rd x" "rd x \<le> b"
    using rd_mono [OF assms(1)] rd_mono [OF assms(2)] assms(3,4) by simp_all
  moreover from this have "\<bar>rd x\<bar> < 2 ^ emax"
    using assms(5,6) by linarith
  ultimately show ?thesis by (simp add: fl_finite)
qed

lemma fl_overflow:
  assumes "2 ^ emax \<le> x"
  shows "fl x = PosInf"
proof -
  have "2 ^ emax \<le> rd x"
    using rd_mono [OF assms] by (simp add: rd_pow2)
  moreover have "0 < x"
    using assms by (rule less_le_trans [rotated]) simp
  ultimately show ?thesis by (simp add: fl_def)
qed

lemma is_double_rd: "is_double x \<Longrightarrow> rd x = x \<and> \<bar>x\<bar> < 2 ^ emax"
  by (auto simp: is_double_def fl_def split: if_splits)

lemma double_gap:
  assumes "is_double a" and "is_double b" and "a < b"
  shows "1 / 2 ^ denorm \<le> b - a"
proof -
  obtain k :: int where k: "a = of_int k / 2 ^ denorm"
    using rd_grid [of a] is_double_rd [OF assms(1)] by auto
  obtain l :: int where l: "b = of_int l / 2 ^ denorm"
    using rd_grid [of b] is_double_rd [OF assms(2)] by auto
  have "of_int k < (of_int l :: real)"
    using assms(3) by (simp add: k l divide_less_cancel)
  then have "k + 1 \<le> l" by simp
  then have "of_int (k + 1) \<le> (of_int l :: real)"
    by (rule of_int_le_iff [THEN iffD2])
  then have "(of_int k + 1) / 2 ^ denorm \<le> (of_int l :: real) / 2 ^ denorm"
    by (intro divide_right_mono) simp_all
  then show ?thesis
    by (simp add: k l add_divide_distrib)
qed

lemma rd_positive:
  assumes "1 / 2 ^ denorm \<le> x"
  shows "0 < rd x"
proof -
  have "rd (of_int 1 / 2 ^ denorm) = of_int 1 / 2 ^ denorm"
    by (intro rd_dyadic) simp_all
  then have "1 / 2 ^ denorm \<le> rd x"
    using rd_mono [OF assms] by simp
  moreover have "(0::real) < 1 / 2 ^ denorm" by simp
  ultimately show ?thesis by linarith
qed


lemma shift_bounds:
  assumes "x \<noteq> 0" and "shift x = int p"
  shows "2 ^ 52 \<le> \<bar>x\<bar> * 2 ^ p \<and> \<bar>x\<bar> * 2 ^ p < 2 ^ 53"
proof (cases "1 \<le> \<bar>x\<bar>")
  case True
  define a where "a = \<lfloor>\<bar>x\<bar>\<rfloor>"
  define n where "n = nat (bitlen a)"
  have a: "0 < a" using True by (simp add: a_def)
  have b: "bitlen a = int n" by (simp add: n_def bitlen_nonneg)
  have n: "n + p = 53" using assms(2) True b by (simp add: shift_def a_def)
  have "0 < n" using a b bitlen_eq_zero_iff [of a] by (cases n) auto
  then obtain n' where n': "n = Suc n'" by (cases n) auto
  have e: "nat (bitlen a - 1) = n'" "nat (bitlen a) = n"
    using b n' by simp_all
  have lo: "(2::int) ^ n' \<le> a" and hi: "a < 2 ^ n"
    using bitlen_bounds [OF a] unfolding e by simp_all
  have "of_int ((2::int) ^ n') \<le> (of_int a :: real)"
    using lo by (rule of_int_le_iff [THEN iffD2])
  also have "\<dots> \<le> \<bar>x\<bar>" by (simp add: a_def)
  finally have "2 ^ n' * 2 ^ p \<le> \<bar>x\<bar> * 2 ^ p"
    by (intro mult_right_mono) simp_all
  moreover have "n' + p = 52" using n n' by simp
  ultimately have 1: "2 ^ 52 \<le> \<bar>x\<bar> * 2 ^ p"
    by (simp add: power_add [symmetric])
  have "a + 1 \<le> 2 ^ n" using hi by simp
  then have "of_int (a + 1) \<le> (of_int (2 ^ n) :: real)"
    by (rule of_int_le_iff [THEN iffD2])
  moreover have "\<bar>x\<bar> < of_int (a + 1)"
    unfolding a_def by linarith
  ultimately have "\<bar>x\<bar> < 2 ^ n" by simp
  then have "\<bar>x\<bar> * 2 ^ p < 2 ^ n * 2 ^ p"
    by (intro mult_strict_right_mono) simp_all
  then have 2: "\<bar>x\<bar> * 2 ^ p < 2 ^ 53"
    using n by (simp add: power_add [symmetric])
  from 1 2 show ?thesis ..
next
  case False
  then have x: "0 < \<bar>x\<bar>" "\<bar>x\<bar> < 1" using assms(1) by simp_all
  define y where "y = 1 / \<bar>x\<bar>"
  define c where "c = \<lceil>y\<rceil>"
  have y: "1 < y" "0 < y" using x by (simp_all add: y_def)
  have c: "of_int c - 1 < y" "y \<le> of_int c"
    unfolding c_def by linarith+
  have c1: "0 < c - 1" using y c by linarith
  define n where "n = nat (bitlen (c - 1))"
  have b: "bitlen (c - 1) = int n" by (simp add: n_def bitlen_nonneg)
  have p: "p = 52 + n" using assms(2) False b by (simp add: shift_def c_def y_def)
  have "0 < n" using c1 b bitlen_eq_zero_iff [of "c - 1"] by (cases n) auto
  then obtain n' where n': "n = Suc n'" by (cases n) auto
  have e: "nat (bitlen (c - 1) - 1) = n'" "nat (bitlen (c - 1)) = n"
    using b n' by simp_all
  have lo: "(2::int) ^ n' \<le> c - 1" and hi: "c - 1 < 2 ^ n"
    using bitlen_bounds [OF c1] unfolding e by simp_all
  have "c \<le> 2 ^ n" using hi by simp
  then have "of_int c \<le> (of_int (2 ^ n) :: real)"
    by (rule of_int_le_iff [THEN iffD2])
  then have "of_int c \<le> (2 ^ n :: real)" by simp
  then have "y \<le> 2 ^ n" using c(2) by linarith
  then have "1 \<le> \<bar>x\<bar> * 2 ^ n"
    using x by (simp add: y_def divide_le_eq mult.commute)
  then have "2 ^ 52 * 1 \<le> 2 ^ 52 * (\<bar>x\<bar> * 2 ^ n)"
    by (intro mult_left_mono) simp_all
  then have 1: "2 ^ 52 \<le> \<bar>x\<bar> * 2 ^ p"
    by (simp add: p power_add mult_ac)
  have "of_int ((2::int) ^ n') \<le> (of_int (c - 1) :: real)"
    using lo by (rule of_int_le_iff [THEN iffD2])
  then have "(2 ^ n' :: real) \<le> of_int c - 1" by simp
  then have "2 ^ n' < y" using c(1) by linarith
  then have "\<bar>x\<bar> * 2 ^ n' < 1"
    using x by (simp add: y_def less_divide_eq mult.commute)
  then have lt: "2 ^ 53 * (\<bar>x\<bar> * 2 ^ n') < 2 ^ 53 * 1"
    by (intro mult_strict_left_mono) simp_all
  have pp: "(2::real) ^ p = 2 ^ 53 * 2 ^ n'"
    by (simp add: p n' power_add)
  have eq: "\<bar>x\<bar> * 2 ^ p = 2 ^ 53 * (\<bar>x\<bar> * 2 ^ n')"
    by (simp only: pp mult_ac)
  have 2: "\<bar>x\<bar> * 2 ^ p < 2 ^ 53"
    unfolding eq using lt by simp
  from 1 2 show ?thesis ..
qed

lemma rne_abs_bound:
  assumes "0 \<le> y" and "y < 2 ^ 53"
  shows "0 \<le> rne y \<and> rne y \<le> 2 ^ 53"
  using rne_lower [of 0 y] rne_upper [of y "2 ^ 53"] assms by simp

lemma fl_compute:
  assumes "x \<noteq> 0" and "0 \<le> shift x" and "shift x \<le> int denorm"
  shows "fl x = Fin (sgn x * of_int (rne (\<bar>x\<bar> * 2 ^ nat (shift x))) / 2 ^ nat (shift x))"
proof -
  define p where "p = nat (shift x)"
  have p: "shift x = int p" "p \<le> denorm" using assms(2,3) by (simp_all add: p_def)
  note b = shift_bounds [OF assms(1) p(1)]
  have r: "rd x = sgn x * of_int (rne (\<bar>x\<bar> * 2 ^ p)) / 2 ^ p"
    using b p(2) by (intro rd_normal) simp_all
  have "0 \<le> rne (\<bar>x\<bar> * 2 ^ p) \<and> rne (\<bar>x\<bar> * 2 ^ p) \<le> 2 ^ 53"
    using b by (intro rne_abs_bound) simp_all
  then have "0 \<le> (of_int (rne (\<bar>x\<bar> * 2 ^ p)) :: real)" "(of_int (rne (\<bar>x\<bar> * 2 ^ p)) :: real) \<le> of_int (2 ^ 53)"
    by (simp_all only: of_int_le_iff of_int_0_le_iff)
  then have "\<bar>of_int (rne (\<bar>x\<bar> * 2 ^ p)) / 2 ^ p\<bar> \<le> (2 ^ 53 :: real) / 2 ^ p"
    by (simp add: abs_divide divide_right_mono)
  also have "\<dots> \<le> 2 ^ 53 / 1"
    by (intro divide_left_mono) simp_all
  also have "\<dots> < 2 ^ emax"
    unfolding emax_def by (simp add: power_strict_increasing)
  finally have "\<bar>rd x\<bar> < 2 ^ emax"
    by (simp add: r abs_mult abs_sgn_eq assms(1) abs_divide)
  then show ?thesis
    by (simp add: fl_finite r p_def)
qed

lemmas fl_eval = fl_compute shift_def compute_bitlen rne_def denorm_def

section \<open>Auxiliary lemmas on the score\<close>

lemmas js_cmp = js_le_def js_ge_def js_gt_def

lemma js_lt_not_NaN: "js_lt a b \<Longrightarrow> a \<noteq> NaN \<and> b \<noteq> NaN"
  by (cases a; cases b) simp_all

lemma js_lt_irrefl: "\<not> js_lt a a"
  by (cases a) simp_all

lemma js_ge_above: "js_lt lo hi \<Longrightarrow> js_ge w hi \<Longrightarrow> \<not> js_le w lo"
  by (cases lo; cases hi; cases w) (simp_all add: js_cmp)

lemma calc_number:
  "v \<noteq> NaN \<Longrightarrow> calculateProbability (Num v) t b m asc =
     (if asc then
        (if js_le v (min_t t) then b
         else if js_ge v (max_t t) then m
         else Math_round (js_add b
           (js_mul (js_div (js_sub v (min_t t)) (js_sub (max_t t) (min_t t))) (js_sub m b))))
      else
        (if js_le v (min_t t) then m
         else if js_ge v (max_t t) then b
         else Math_round (js_sub m
           (js_mul (js_div (js_sub v (min_t t)) (js_sub (max_t t) (min_t t))) (js_sub m b)))))"
  by (simp add: calculateProbability_def isNaN_def)

lemma calc_missing:
  "is_null v \<or> isNaN v \<Longrightarrow> calculateProbability v t b m asc = b"
  by (auto simp: calculateProbability_def)

lemma value_cases:
  obtains "is_null v \<or> isNaN v" | n where "v = Num n" and "n \<noteq> NaN"
  by (cases v) (auto simp: isNaN_def)

lemma round_between:
  fixes c d :: int and x :: real
  assumes "of_int c \<le> x" and "x \<le> of_int d"
  shows "c \<le> round x \<and> round x \<le> d"
  using round_mono [OF assms(1)] round_mono [OF assms(2)] by simp

lemma rd_int_le:
  fixes m :: int
  assumes "\<bar>m\<bar> \<le> 2 ^ 53"
  shows "rd (of_int m) = of_int m"
proof (cases "\<bar>m\<bar> < 2 ^ 53")
  case True
  then show ?thesis by (rule rd_int)
next
  case False
  then have "m = 2 ^ 53 \<or> m = - (2 ^ 53)" using assms by linarith
  then show ?thesis
    using rd_pow2 [of 53] rd_minus [of "2 ^ 53"] by auto
qed

lemma small_finite:
  fixes x :: real
  assumes "\<bar>x\<bar> \<le> 2 ^ 53"
  shows "\<bar>x\<bar> < 2 ^ emax"
proof -
  have "(2::real) ^ 53 < 2 ^ emax"
    unfolding emax_def by (simp add: power_strict_increasing)
  then show ?thesis using assms by linarith
qed

lemma js_sub_Fin: "js_sub (Fin x) (Fin y) = fl (x - y)"
  by (simp add: js_sub_def)

lemma fl_positive_cases:
  assumes "0 < x"
  shows "fl x = PosInf \<or> (fl x = Fin (rd x) \<and> \<bar>rd x\<bar> < 2 ^ emax)"
  using assms by (simp add: fl_def not_le)

lemma width:
  assumes "is_double lo" and "is_double hi" and "lo < hi"
    and "js_sub (Fin hi) (Fin lo) \<noteq> PosInf"
  shows "js_sub (Fin hi) (Fin lo) = Fin (rd (hi - lo))"
    and "0 < rd (hi - lo)" and "rd (hi - lo) < 2 ^ emax"
proof -
  have "0 < hi - lo" using assms(3) by simp
  from fl_positive_cases [OF this] assms(4)
  have f: "fl (hi - lo) = Fin (rd (hi - lo))" "\<bar>rd (hi - lo)\<bar> < 2 ^ emax"
    by (simp_all add: js_sub_Fin)
  show "js_sub (Fin hi) (Fin lo) = Fin (rd (hi - lo))"
    using f(1) by (simp add: js_sub_Fin)
  show "0 < rd (hi - lo)"
    using double_gap [OF assms(1-3)] by (rule rd_positive)
  show "rd (hi - lo) < 2 ^ emax"
    using f(2) by linarith
qed

lemma numerator:
  assumes "lo < x" and "x < hi" and "rd (hi - lo) < 2 ^ emax"
  shows "js_sub (Fin x) (Fin lo) = Fin (rd (x - lo))"
    and "0 \<le> rd (x - lo)" and "rd (x - lo) \<le> rd (hi - lo)"
proof -
  show 1: "0 \<le> rd (x - lo)"
    using assms(1) by (intro rd_nonneg) simp
  show 2: "rd (x - lo) \<le> rd (hi - lo)"
    using assms(2) by (intro rd_mono) simp
  from 1 2 assms(3) have "\<bar>rd (x - lo)\<bar> < 2 ^ emax" by linarith
  then show "js_sub (Fin x) (Fin lo) = Fin (rd (x - lo))"
    by (simp add: js_sub_Fin fl_finite)
qed

lemma rd_one: "rd 1 = 1"
  using rd_pow2 [of 0] by simp

lemma quotient:
  assumes "0 \<le> n" and "n \<le> w" and "0 < w"
  shows "js_div (Fin n) (Fin w) = Fin (rd (n / w))"
    and "0 \<le> rd (n / w)" and "rd (n / w) \<le> 1"
proof -
  have "0 \<le> n / w" "n / w \<le> 1"
    using assms by simp_all
  then have "fl (n / w) = Fin (rd (n / w)) \<and> 0 \<le> rd (n / w) \<and> rd (n / w) \<le> 1"
    using small_finite [of 1] by (intro fl_between) (simp_all add: rd_zero rd_one)
  then show "js_div (Fin n) (Fin w) = Fin (rd (n / w))"
    and "0 \<le> rd (n / w)" and "rd (n / w) \<le> 1"
    using assms(3) by simp_all
qed

lemma fraction_interior:
  assumes "is_double lo" and "is_double hi" and "js_sub (Fin hi) (Fin lo) \<noteq> PosInf"
    and "lo < x" and "x < hi"
  shows "js_div (js_sub (Fin x) (Fin lo)) (js_sub (Fin hi) (Fin lo)) = Fin (fraction lo hi (Fin x))"
    and "0 \<le> fraction lo hi (Fin x)" and "fraction lo hi (Fin x) \<le> 1"
proof -
  have lh: "lo < hi" using assms(4,5) by simp
  note w = width [OF assms(1,2) lh assms(3)]
  note n = numerator [OF assms(4,5) w(3)]
  note q = quotient [OF n(2,3) w(2)]
  have f: "fraction lo hi (Fin x) = rd (rd (x - lo) / rd (hi - lo))"
    using assms(4,5) by simp
  show "js_div (js_sub (Fin x) (Fin lo)) (js_sub (Fin hi) (Fin lo)) = Fin (fraction lo hi (Fin x))"
    by (simp only: w(1) n(1) q(1) f)
  show "0 \<le> fraction lo hi (Fin x)" and "fraction lo hi (Fin x) \<le> 1"
    using q(2,3) by (simp_all only: f)
qed

lemma fraction_range:
  assumes "is_double lo" and "is_double hi" and "js_sub (Fin hi) (Fin lo) \<noteq> PosInf"
  shows "0 \<le> fraction lo hi v \<and> fraction lo hi v \<le> 1"
proof (cases v)
  case (Fin x)
  show ?thesis
  proof (cases "lo < x \<and> x < hi")
    case True
    then show ?thesis
      using fraction_interior(2,3) [OF assms, of x] Fin by simp
  next
    case False
    then show ?thesis using Fin by auto
  qed
qed simp_all

lemma fraction_mono:
  assumes "is_double lo" and "is_double hi" and "js_sub (Fin hi) (Fin lo) \<noteq> PosInf"
    and "js_lt v w"
  shows "fraction lo hi v \<le> fraction lo hi w"
proof -
  note r = fraction_range [OF assms(1-3)]
  consider
    (low) "fraction lo hi v = 0"
    | (high) "fraction lo hi w = 1"
    | (mid) x y where "v = Fin x" "w = Fin y" "lo < x" "x < hi" "lo < y" "y < hi" "x < y"
  proof (cases v)
    case (Fin x)
    note vx = Fin
    show ?thesis
    proof (cases w)
      case (Fin y)
      then have "x < y" using assms(4) vx by simp
      then show ?thesis
        using vx Fin low high mid by (cases "x \<le> lo"; cases "hi \<le> y") auto
    next
      case PosInf
      then show ?thesis using high by simp
    qed (use assms(4) vx in simp_all)
  next
    case NegInf
    then show ?thesis using low by simp
  qed (use assms(4) in simp_all)
  then show ?thesis
  proof cases
    case low
    then show ?thesis using r [of w] by simp
  next
    case high
    then show ?thesis using r [of v] by simp
  next
    case mid
    have lh: "lo < hi" using mid by simp
    note wd = width [OF assms(1,2) lh assms(3)]
    have "rd (x - lo) \<le> rd (y - lo)"
      using mid(7) by (intro rd_mono) simp
    then have "rd (x - lo) / rd (hi - lo) \<le> rd (y - lo) / rd (hi - lo)"
      using wd(2) by (simp add: divide_right_mono)
    then have "rd (rd (x - lo) / rd (hi - lo)) \<le> rd (rd (y - lo) / rd (hi - lo))"
      by (rule rd_mono)
    then show ?thesis using mid by simp
  qed
qed

lemma bounds_exact:
  fixes c d :: int
  assumes "\<bar>c\<bar> \<le> 2 ^ 52" and "\<bar>d\<bar> \<le> 2 ^ 52"
  shows "rd (of_int c) = of_int c" and "rd (of_int d) = of_int d"
    and "rd (of_int d - of_int c) = of_int d - of_int c"
    and "\<bar>of_int c :: real\<bar> < 2 ^ emax" and "\<bar>of_int d :: real\<bar> < 2 ^ emax"
    and "\<bar>of_int d - of_int c :: real\<bar> < 2 ^ emax"
proof -
  have c: "\<bar>c\<bar> \<le> 2 ^ 53" and d: "\<bar>d\<bar> \<le> 2 ^ 53" and e: "\<bar>d - c\<bar> \<le> 2 ^ 53"
    using assms by simp_all
  show "rd (of_int c) = of_int c" using c by (rule rd_int_le)
  show "rd (of_int d) = of_int d" using d by (rule rd_int_le)
  show "rd (of_int d - of_int c) = of_int d - of_int c"
    using rd_int_le [OF e] by simp
  have r: "\<bar>of_int k :: real\<bar> < 2 ^ emax" if "\<bar>k\<bar> \<le> 2 ^ 53" for k :: int
  proof -
    have "(of_int \<bar>k\<bar> :: real) \<le> of_int (2 ^ 53)"
      using that by (rule of_int_le_iff [THEN iffD2])
    then show ?thesis by (intro small_finite) simp
  qed
  show "\<bar>of_int c :: real\<bar> < 2 ^ emax" using c by (rule r)
  show "\<bar>of_int d :: real\<bar> < 2 ^ emax" using d by (rule r)
  show "\<bar>of_int d - of_int c :: real\<bar> < 2 ^ emax" using r [OF e] by simp
qed

lemma blend:
  fixes c d :: int and t :: real
  assumes "\<bar>c\<bar> \<le> 2 ^ 52" and "\<bar>d\<bar> \<le> 2 ^ 52" and "c \<le> d" and "0 \<le> t" and "t \<le> 1"
  shows "js_add (Fin (of_int c)) (js_mul (Fin t) (js_sub (Fin (of_int d)) (Fin (of_int c))))
           = Fin (rd (of_int c + rd (t * (of_int d - of_int c))))"
    and "of_int c \<le> rd (of_int c + rd (t * (of_int d - of_int c)))"
    and "rd (of_int c + rd (t * (of_int d - of_int c))) \<le> of_int d"
    and "js_sub (Fin (of_int d)) (js_mul (Fin t) (js_sub (Fin (of_int d)) (Fin (of_int c))))
           = Fin (rd (of_int d - rd (t * (of_int d - of_int c))))"
    and "of_int c \<le> rd (of_int d - rd (t * (of_int d - of_int c)))"
    and "rd (of_int d - rd (t * (of_int d - of_int c))) \<le> of_int d"
proof -
  note b = bounds_exact [OF assms(1,2)]
  define e :: real where "e = of_int d - of_int c"
  have e: "0 \<le> e" "rd e = e" "\<bar>e\<bar> < 2 ^ emax" "fl e = Fin e"
    using assms(3) b(3,6) by (simp_all add: e_def fl_finite)
  have "0 \<le> t * e" "t * e \<le> e"
    using assms(4,5) e(1) by (simp_all add: mult_left_le_one_le)
  then have m: "fl (t * e) = Fin (rd (t * e)) \<and> 0 \<le> rd (t * e) \<and> rd (t * e) \<le> e"
    using e by (intro fl_between) (simp_all add: rd_zero)
  have mul: "js_mul (Fin t) (js_sub (Fin (of_int d)) (Fin (of_int c))) = Fin (rd (t * e))"
    using m e(4) by (simp add: js_sub_Fin e_def [symmetric])
  have "of_int c \<le> of_int c + rd (t * e)" "of_int c + rd (t * e) \<le> of_int d"
    using m by (simp_all add: e_def)
  then have up: "fl (of_int c + rd (t * e)) = Fin (rd (of_int c + rd (t * e)))
      \<and> of_int c \<le> rd (of_int c + rd (t * e)) \<and> rd (of_int c + rd (t * e)) \<le> of_int d"
    using b by (intro fl_between) simp_all
  have "of_int c \<le> of_int d - rd (t * e)" "of_int d - rd (t * e) \<le> of_int d"
    using m by (simp_all add: e_def)
  then have down: "fl (of_int d - rd (t * e)) = Fin (rd (of_int d - rd (t * e)))
      \<and> of_int c \<le> rd (of_int d - rd (t * e)) \<and> rd (of_int d - rd (t * e)) \<le> of_int d"
    using b by (intro fl_between) simp_all
  have "js_add (Fin (of_int c)) (js_mul (Fin t) (js_sub (Fin (of_int d)) (Fin (of_int c))))
      = js_add (Fin (of_int c)) (Fin (rd (t * e)))"
    by (simp only: mul)
  also have "\<dots> = fl (of_int c + rd (t * e))"
    by simp
  also have "\<dots> = Fin (rd (of_int c + rd (t * e)))"
    using up by simp
  finally show "js_add (Fin (of_int c)) (js_mul (Fin t) (js_sub (Fin (of_int d)) (Fin (of_int c))))
           = Fin (rd (of_int c + rd (t * (of_int d - of_int c))))"
    unfolding e_def .
  show "of_int c \<le> rd (of_int c + rd (t * (of_int d - of_int c)))"
    and "rd (of_int c + rd (t * (of_int d - of_int c))) \<le> of_int d"
    using up by (simp_all add: e_def)
  have "js_sub (Fin (of_int d)) (js_mul (Fin t) (js_sub (Fin (of_int d)) (Fin (of_int c))))
      = js_sub (Fin (of_int d)) (Fin (rd (t * e)))"
    by (simp only: mul)
  also have "\<dots> = fl (of_int d - rd (t * e))"
    by (rule js_sub_Fin)
  also have "\<dots> = Fin (rd (of_int d - rd (t * e)))"
    using down by simp
  finally show "js_sub (Fin (of_int d)) (js_mul (Fin t) (js_sub (Fin (of_int d)) (Fin (of_int c))))
           = Fin (rd (of_int d - rd (t * (of_int d - of_int c))))"
    unfolding e_def .
  show "of_int c \<le> rd (of_int d - rd (t * (of_int d - of_int c)))"
    and "rd (of_int d - rd (t * (of_int d - of_int c))) \<le> of_int d"
    using down by (simp_all add: e_def)
qed

lemma blend_ends:
  fixes c d :: int
  assumes "\<bar>c\<bar> \<le> 2 ^ 52" and "\<bar>d\<bar> \<le> 2 ^ 52"
  shows "round (rd (of_int c + rd (0 * (of_int d - of_int c)))) = c"
    and "round (rd (of_int c + rd (1 * (of_int d - of_int c)))) = d"
    and "round (rd (of_int d - rd (0 * (of_int d - of_int c)))) = d"
    and "round (rd (of_int d - rd (1 * (of_int d - of_int c)))) = c"
  using bounds_exact(1-3) [OF assms] by (simp_all add: rd_zero)

lemma calc_fraction:
  fixes c d :: int
  assumes "is_double lo" and "is_double hi" and "js_sub (Fin hi) (Fin lo) \<noteq> PosInf"
    and "\<bar>c\<bar> \<le> 2 ^ 52" and "\<bar>d\<bar> \<le> 2 ^ 52" and "c \<le> d" and "v \<noteq> NaN"
  shows "calculateProbability (Num v) \<lparr>min_t = Fin lo, max_t = Fin hi\<rparr>
           (Fin (of_int c)) (Fin (of_int d)) True
         = Fin (of_int (round (rd (of_int c + rd (fraction lo hi v * (of_int d - of_int c))))))"
    and "calculateProbability (Num v) \<lparr>min_t = Fin lo, max_t = Fin hi\<rparr>
           (Fin (of_int c)) (Fin (of_int d)) False
         = Fin (of_int (round (rd (of_int d - rd (fraction lo hi v * (of_int d - of_int c))))))"
proof -
  note e = blend_ends [OF assms(4,5)]
  have "calculateProbability (Num v) \<lparr>min_t = Fin lo, max_t = Fin hi\<rparr>
           (Fin (of_int c)) (Fin (of_int d)) True
         = Fin (of_int (round (rd (of_int c + rd (fraction lo hi v * (of_int d - of_int c))))))
    \<and> calculateProbability (Num v) \<lparr>min_t = Fin lo, max_t = Fin hi\<rparr>
           (Fin (of_int c)) (Fin (of_int d)) False
         = Fin (of_int (round (rd (of_int d - rd (fraction lo hi v * (of_int d - of_int c))))))"
  proof (cases v)
    case NaN
    then show ?thesis using assms(7) by simp
  next
    case NegInf
    then show ?thesis using e by (simp add: calc_number js_cmp)
  next
    case PosInf
    then show ?thesis using e by (simp add: calc_number js_cmp)
  next
    case (Fin x)
    consider "x \<le> lo" | "lo < x" "hi \<le> x" | "lo < x" "x < hi" by linarith
    then show ?thesis
    proof cases
      case 1
      then show ?thesis using Fin e by (simp add: calc_number js_cmp)
    next
      case 2
      then show ?thesis using Fin e by (simp add: calc_number js_cmp)
    next
      case 3
      note f = fraction_interior [OF assms(1-3) 3]
      note b = blend(1,4) [OF assms(4-6) f(2,3)]
      have n: "\<not> js_le (Fin x) (Fin lo)" "\<not> js_ge (Fin x) (Fin hi)"
        using 3 by (simp_all add: js_cmp)
      show ?thesis
        unfolding Fin by (simp add: calc_number n f(1) b del: fraction.simps)
    qed
  qed
  then show "calculateProbability (Num v) \<lparr>min_t = Fin lo, max_t = Fin hi\<rparr>
           (Fin (of_int c)) (Fin (of_int d)) True
         = Fin (of_int (round (rd (of_int c + rd (fraction lo hi v * (of_int d - of_int c))))))"
    and "calculateProbability (Num v) \<lparr>min_t = Fin lo, max_t = Fin hi\<rparr>
           (Fin (of_int c)) (Fin (of_int d)) False
         = Fin (of_int (round (rd (of_int d - rd (fraction lo hi v * (of_int d - of_int c))))))"
    by simp_all
qed

lemma calc_integer_range:
  fixes c d :: int
  assumes "is_double lo" and "is_double hi" and "js_sub (Fin hi) (Fin lo) \<noteq> PosInf"
    and "\<bar>c\<bar> \<le> 2 ^ 52" and "\<bar>d\<bar> \<le> 2 ^ 52" and "c \<le> d"
  shows "\<exists>k. calculateProbability v \<lparr>min_t = Fin lo, max_t = Fin hi\<rparr>
           (Fin (of_int c)) (Fin (of_int d)) asc = Fin (of_int k) \<and> c \<le> k \<and> k \<le> d"
proof (cases v rule: value_cases)
  case 1
  then show ?thesis using assms(6) by (simp add: calc_missing)
next
  case (2 n)
  note f = fraction_range [OF assms(1-3), of n]
  note b = blend(2,3,5,6) [OF assms(4-6), of "fraction lo hi n"]
  note c = calc_fraction [OF assms 2(2)]
  show ?thesis
  proof (cases asc)
    case True
    have "c \<le> round (rd (of_int c + rd (fraction lo hi n * (of_int d - of_int c))))
      \<and> round (rd (of_int c + rd (fraction lo hi n * (of_int d - of_int c)))) \<le> d"
      using b(1,2) f by (intro round_between) simp_all
    then show ?thesis using True 2(1) c(1) by simp
  next
    case False
    have "c \<le> round (rd (of_int d - rd (fraction lo hi n * (of_int d - of_int c))))
      \<and> round (rd (of_int d - rd (fraction lo hi n * (of_int d - of_int c)))) \<le> d"
      using b(3,4) f by (intro round_between) simp_all
    then show ?thesis using False 2(1) c(2) by simp
  qed
qed

lemma calc_monotone:
  fixes c d :: int
  assumes "is_double lo" and "is_double hi" and "js_sub (Fin hi) (Fin lo) \<noteq> PosInf"
    and "\<bar>c\<bar> \<le> 2 ^ 52" and "\<bar>d\<bar> \<le> 2 ^ 52" and "c \<le> d" and "js_lt v w"
  shows "js_le
    (calculateProbability (Num v) \<lparr>min_t = Fin lo, max_t = Fin hi\<rparr> (Fin (of_int c)) (Fin (of_int d)) True)
    (calculateProbability (Num w) \<lparr>min_t = Fin lo, max_t = Fin hi\<rparr> (Fin (of_int c)) (Fin (of_int d)) True)"
    and "js_ge
    (calculateProbability (Num v) \<lparr>min_t = Fin lo, max_t = Fin hi\<rparr> (Fin (of_int c)) (Fin (of_int d)) False)
    (calculateProbability (Num w) \<lparr>min_t = Fin lo, max_t = Fin hi\<rparr> (Fin (of_int c)) (Fin (of_int d)) False)"
proof -
  note n = js_lt_not_NaN [OF assms(7)]
  have m: "rd (fraction lo hi v * (of_int d - of_int c)) \<le> rd (fraction lo hi w * (of_int d - of_int c))"
    using fraction_mono [OF assms(1-3,7)] assms(6)
    by (intro rd_mono mult_right_mono) simp_all
  have "round (rd (of_int c + rd (fraction lo hi v * (of_int d - of_int c))))
      \<le> round (rd (of_int c + rd (fraction lo hi w * (of_int d - of_int c))))"
    using m by (intro round_mono rd_mono) simp
  then show "js_le
    (calculateProbability (Num v) \<lparr>min_t = Fin lo, max_t = Fin hi\<rparr> (Fin (of_int c)) (Fin (of_int d)) True)
    (calculateProbability (Num w) \<lparr>min_t = Fin lo, max_t = Fin hi\<rparr> (Fin (of_int c)) (Fin (of_int d)) True)"
    using n by (simp add: calc_fraction(1) [OF assms(1-6)] js_le_def)
  have "round (rd (of_int d - rd (fraction lo hi w * (of_int d - of_int c))))
      \<le> round (rd (of_int d - rd (fraction lo hi v * (of_int d - of_int c))))"
    using m by (intro round_mono rd_mono) simp
  then show "js_ge
    (calculateProbability (Num v) \<lparr>min_t = Fin lo, max_t = Fin hi\<rparr> (Fin (of_int c)) (Fin (of_int d)) False)
    (calculateProbability (Num w) \<lparr>min_t = Fin lo, max_t = Fin hi\<rparr> (Fin (of_int c)) (Fin (of_int d)) False)"
    using n by (simp add: calc_fraction(2) [OF assms(1-6)] js_ge_def)
qed

lemma round_add_int:
  fixes x :: real
  shows "round (x + of_int k) = round x + k"
proof -
  have "round (x + of_int k) = \<lfloor>(x + 1 / 2) + of_int k\<rfloor>"
    by (simp add: round_def ac_simps)
  then show ?thesis
    by (simp only: floor_add_int round_def)
qed

lemma three_fifths_near:
  fixes s :: int
  shows "\<bar>of_int s * (6 / 10) - of_int (round (of_int s * (6 / 10 :: real)))\<bar> \<le> (2 / 5 :: real)"
proof -
  define x :: real where "x = of_int s * (6 / 10)"
  define n where "n = round x"
  define z where "z = 3 * s - 5 * n"
  have "\<bar>of_int n - x\<bar> \<le> 1 / 2"
    unfolding n_def by (rule of_int_round_abs_le)
  moreover have zx: "of_int z = 5 * (x - of_int n)"
    by (simp add: z_def x_def)
  ultimately have "\<bar>of_int z :: real\<bar> \<le> 5 / 2"
    by (simp only: zx abs_mult) (simp add: abs_minus_commute)
  then have "\<bar>of_int z :: real\<bar> < of_int 3"
    by simp
  then have "\<bar>z\<bar> < 3"
    by (simp only: of_int_abs [symmetric] of_int_less_iff)
  then have "\<bar>z\<bar> \<le> 2" by simp
  then have "\<bar>of_int z :: real\<bar> \<le> 2"
    by (simp only: of_int_abs [symmetric])
  then have "\<bar>x - of_int n\<bar> \<le> 2 / 5"
    by (simp only: zx abs_mult) simp
  then show ?thesis by (simp only: x_def n_def)
qed

lemma six_tenths: "fl (6 / 10) = Fin (5404319552844595 / 9007199254740992)"
  by (simp add: fl_eval)

lemma near_integer_exact:
  fixes k :: int
  assumes "\<bar>k\<bar> \<le> 2 ^ 40"
  shows "rd (of_int k - 7 / 16) = of_int k - 7 / 16"
    and "rd (of_int k + 7 / 16) = of_int k + 7 / 16"
    and "\<bar>of_int k - 7 / 16 :: real\<bar> < 2 ^ emax"
    and "\<bar>of_int k + 7 / 16 :: real\<bar> < 2 ^ emax"
proof -
  have d: "4 \<le> denorm" by (simp add: denorm_def)
  have "\<bar>16 * k - 7\<bar> < 2 ^ 53" "\<bar>16 * k + 7\<bar> < 2 ^ 53"
    using assms by simp_all
  from rd_dyadic [OF this(1) d] rd_dyadic [OF this(2) d]
  show "rd (of_int k - 7 / 16) = of_int k - 7 / 16"
    and "rd (of_int k + 7 / 16) = of_int k + 7 / 16"
    by (simp_all add: diff_divide_distrib add_divide_distrib)
  have "(of_int \<bar>k\<bar> :: real) \<le> of_int (2 ^ 40)"
    using assms by (rule of_int_le_iff [THEN iffD2])
  then have "\<bar>of_int k :: real\<bar> \<le> 2 ^ 40" by simp
  then show "\<bar>of_int k - 7 / 16 :: real\<bar> < 2 ^ emax"
    and "\<bar>of_int k + 7 / 16 :: real\<bar> < 2 ^ emax"
    by (intro small_finite; simp; linarith)+
qed

lemma discomfort_integer_scores:
  fixes h e :: int
  assumes "10 \<le> h" and "h \<le> 95" and "10 \<le> e" and "e \<le> 95"
  shows "uncomfortableProb (Fin (of_int h)) (Fin (of_int e)) y =
     Fin (of_int (min 99 (round (of_int (h + e) * (6 / 10)
       + (if js_gt y (Fin 70) then 10 else 0 :: real)))))"
proof -
  define s where "s = h + e"
  define x :: real where "x = of_int s * (6 / 10)"
  define n where "n = round x"
  define b :: int where "b = (if js_gt y (Fin 70) then 10 else 0)"
  define c06 :: real where "c06 = 5404319552844595 / 9007199254740992"
  have s: "20 \<le> s" "s \<le> 190" using assms by (simp_all add: s_def)
  have sr: "(20 :: real) \<le> of_int s" "of_int s \<le> (190 :: real)"
    using s by simp_all
  have b: "b = 0 \<or> b = 10" by (simp add: b_def)
  have "round (12 :: real) \<le> n" "n \<le> round (114 :: real)"
    unfolding n_def x_def using sr by (intro round_mono; simp)+
  then have n: "12 \<le> n" "n \<le> 114" by simp_all
  have near: "\<bar>x - of_int n\<bar> \<le> 2 / 5"
    unfolding x_def n_def by (rule three_fifths_near)

  have sum: "js_add (Fin (of_int h)) (Fin (of_int e)) = Fin (of_int s)"
  proof -
    have "\<bar>s\<bar> \<le> 2 ^ 53" using s by simp
    then have "rd (of_int s) = of_int s" by (rule rd_int_le)
    moreover have "\<bar>of_int s :: real\<bar> < 2 ^ emax"
      using sr by (intro small_finite) simp
    ultimately have "fl (of_int s) = Fin (of_int s)"
      by (simp add: fl_finite)
    then show ?thesis by (simp add: s_def)
  qed

  have prod: "of_int s * c06 = x - of_int s / 45035996273704960"
    by (simp add: x_def c06_def field_simps)
  have "of_int n - 7 / 16 \<le> of_int s * c06" "of_int s * c06 \<le> of_int n + 7 / 16"
    using near sr unfolding prod by linarith+
  then have "fl (of_int s * c06) = Fin (rd (of_int s * c06))
      \<and> of_int n - 7 / 16 \<le> rd (of_int s * c06) \<and> rd (of_int s * c06) \<le> of_int n + 7 / 16"
    using n by (intro fl_between near_integer_exact) simp_all
  then obtain p where p: "fl (of_int s * c06) = Fin p"
    "of_int n - 7 / 16 \<le> p" "p \<le> of_int n + 7 / 16"
    by blast

  have "of_int (n + b) - 7 / 16 \<le> p + of_int b" "p + of_int b \<le> of_int (n + b) + 7 / 16"
    using p(2,3) by simp_all
  then have "fl (p + of_int b) = Fin (rd (p + of_int b))
      \<and> of_int (n + b) - 7 / 16 \<le> rd (p + of_int b) \<and> rd (p + of_int b) \<le> of_int (n + b) + 7 / 16"
    using n b by (intro fl_between near_integer_exact) auto
  then obtain q where q: "fl (p + of_int b) = Fin q"
    "of_int (n + b) - 7 / 16 \<le> q" "q \<le> of_int (n + b) + 7 / 16"
    by blast
  have "\<bar>q - of_int (n + b)\<bar> < 1 / 2"
    using q(2,3) by linarith
  then have rq: "round q = n + b" by (rule round_unique')

  have bonus: "(if js_gt y (Fin 70) then Fin 10 else Fin 0) = Fin (of_int b)"
    by (simp add: b_def)
  have "uncomfortableProb (Fin (of_int h)) (Fin (of_int e)) y =
      Math_min (Fin 99) (Math_round (js_add (js_mul (Fin (of_int s)) (Fin c06)) (Fin (of_int b))))"
    unfolding uncomfortableProb_def sum six_tenths bonus c06_def ..
  also have "\<dots> = Math_min (Fin 99) (Fin (of_int (n + b)))"
    by (simp add: p(1) q(1) rq)
  also have "\<dots> = Fin (of_int (min 99 (n + b)))"
    by (simp add: Math_min_def min_def)
  also have "n + b = round (of_int (h + e) * (6 / 10) + (if js_gt y (Fin 70) then 10 else 0 :: real))"
  proof -
    have "(if js_gt y (Fin 70) then 10 else 0 :: real) = of_int b"
      by (simp add: b_def)
    then show ?thesis
      by (simp only: round_add_int n_def x_def s_def)
  qed
  finally show ?thesis .
qed

lemma dashboard_doubles:
  "is_double 25" "is_double 40" "is_double (- 5)" "is_double 10" "is_double 1"
  "is_double 20" "is_double 60" "is_double 50" "is_double 500"
  by (simp_all add: is_double_def fl_eval)

lemma dashboard_widths:
  "js_sub (Fin 40) (Fin 25) \<noteq> PosInf" "js_sub (Fin 10) (Fin (- 5)) \<noteq> PosInf"
  "js_sub (Fin 25) (Fin 1) \<noteq> PosInf" "js_sub (Fin 60) (Fin 20) \<noteq> PosInf"
  "js_sub (Fin 500) (Fin 50) \<noteq> PosInf"
  by (simp_all add: js_sub_Fin fl_eval)

lemma dashboard_scores:
  "\<exists>k. hotProb v = Fin (of_int k) \<and> 10 \<le> k \<and> k \<le> 95"
  "\<exists>k. coldProb v = Fin (of_int k) \<and> 10 \<le> k \<and> k \<le> 95"
  "\<exists>k. wetProb v = Fin (of_int k) \<and> 10 \<le> k \<and> k \<le> 95"
  "\<exists>k. windyProb v = Fin (of_int k) \<and> 10 \<le> k \<and> k \<le> 95"
proof -
  have b: "\<bar>10 :: int\<bar> \<le> 2 ^ 52" "\<bar>95 :: int\<bar> \<le> 2 ^ 52" "(10 :: int) \<le> 95"
    by simp_all
  show "\<exists>k. hotProb v = Fin (of_int k) \<and> 10 \<le> k \<and> k \<le> 95"
    using calc_integer_range [OF dashboard_doubles(1,2) dashboard_widths(1) b, of v True]
    by (simp add: hotProb_def)
  show "\<exists>k. coldProb v = Fin (of_int k) \<and> 10 \<le> k \<and> k \<le> 95"
    using calc_integer_range [OF dashboard_doubles(3,4) dashboard_widths(2) b, of v False]
    by (simp add: coldProb_def)
  show "\<exists>k. wetProb v = Fin (of_int k) \<and> 10 \<le> k \<and> k \<le> 95"
    using calc_integer_range [OF dashboard_doubles(5,1) dashboard_widths(3) b, of v True]
    by (simp add: wetProb_def)
  show "\<exists>k. windyProb v = Fin (of_int k) \<and> 10 \<le> k \<and> k \<le> 95"
    using calc_integer_range [OF dashboard_doubles(6,7) dashboard_widths(4) b, of v True]
    by (simp add: windyProb_def)
qed

lemma discomfort_integer_range:
  fixes h e :: int
  assumes "10 \<le> h" and "h \<le> 95" and "10 \<le> e" and "e \<le> 95"
  shows "\<exists>k::int. uncomfortableProb (Fin (of_int h)) (Fin (of_int e)) y = Fin (of_int k)
           \<and> 12 \<le> k \<and> k \<le> 99"
proof -
  define x :: real where
    "x = of_int (h + e) * (6 / 10) + (if js_gt y (Fin 70) then 10 else 0)"
  have "(20 :: real) \<le> of_int (h + e)"
    using assms by simp
  then have "of_int 12 \<le> x"
    unfolding x_def by simp
  then have "round (of_int 12 :: real) \<le> round x"
    by (rule round_mono)
  then have "12 \<le> min 99 (round x)" "min 99 (round x) \<le> 99"
    by simp_all
  moreover have "uncomfortableProb (Fin (of_int h)) (Fin (of_int e)) y = Fin (of_int (min 99 (round x)))"
    unfolding x_def using assms by (rule discomfort_integer_scores)
  ultimately show ?thesis by blast
qed

lemmas score_eval = calc_number js_cmp js_sub_Fin fl_eval round_def

lemma rd_fl_minus: "fl (- x) = js_neg (fl x)"
proof -
  have "\<not> (2::real) ^ emax \<le> 0"
    by (simp add: not_le)
  then show ?thesis
    by (auto simp: fl_def rd_minus rd_zero)
qed

lemma js_add_commute: "js_add a b = js_add b a"
  by (cases a; cases b) (simp_all add: add.commute)

lemma js_neg_add: "js_neg (js_add a b) = js_add (js_neg a) (js_neg b)"
proof (cases a; cases b)
  fix x y
  assume "a = Fin x" "b = Fin y"
  then show ?thesis
    using rd_fl_minus [of "x + y"] by simp
qed simp_all

lemma js_neg_neg: "js_neg (js_neg a) = a"
  by (cases a) simp_all

lemma js_sub_swap: "js_sub b m = js_neg (js_sub m b)"
  by (simp add: js_sub_def js_neg_add js_neg_neg js_add_commute)

lemma js_mul_neg: "js_mul a (js_neg b) = js_neg (js_mul a b)"
proof (cases a; cases b)
  fix x y
  assume "a = Fin x" "b = Fin y"
  then show ?thesis
    using rd_fl_minus [of "x * y"] by simp
qed (auto simp: signed_inf_def)

lemma swapped_interpolation:
  "js_add m (js_mul q (js_sub b m)) = js_sub m (js_mul q (js_sub m b))"
  by (simp add: js_sub_swap [of b m] js_mul_neg) (simp add: js_sub_def)

lemma rne_error: "\<bar>of_int (rne y) - y\<bar> \<le> 1 / 2"
proof -
  have "of_int \<lfloor>y\<rfloor> \<le> y" "y < of_int \<lfloor>y\<rfloor> + 1" by linarith+
  then show ?thesis by (auto simp: rne_def)
qed

lemma rq_error:
  assumes "0 \<le> X"
  shows "\<bar>rq X - X\<bar> \<le> X / 2 ^ 53 + 1 / 2"
proof -
  define q where "q = quantum X"
  have q: "0 < q" unfolding q_def by (rule quantum_pos)
  have "rq X - X = (of_int (rne (X / q)) - X / q) * q"
    using q by (simp add: rq_def q_def field_simps)
  then have "\<bar>rq X - X\<bar> = \<bar>of_int (rne (X / q)) - X / q\<bar> * q"
    using q by (simp add: abs_mult)
  also have "\<dots> \<le> 1 / 2 * q"
    using q rne_error [of "X / q"] by (intro mult_right_mono) simp_all
  finally have h: "\<bar>rq X - X\<bar> \<le> q / 2" by simp
  show ?thesis
  proof (cases "1 < q")
    case True
    then have "2 ^ 52 * q \<le> X" unfolding q_def by (rule above_bottom)
    then have "q / 2 \<le> X / 2 ^ 53" by simp
    then show ?thesis using h assms by linarith
  next
    case False
    then show ?thesis using h assms by simp
  qed
qed

lemma rd_error: "\<bar>rd x - x\<bar> \<le> \<bar>x\<bar> / 2 ^ 53 + 1 / 2 ^ Suc denorm"
proof -
  define S :: real where "S = 2 ^ denorm"
  define X where "X = \<bar>x\<bar> * S"
  have S: "0 < S" by (simp add: S_def)
  have "rd x - x = sgn x * (rq X - X) / S"
    using S by (simp add: rd_def X_def S_def [symmetric] field_simps sgn_if)
  then have "\<bar>rd x - x\<bar> = \<bar>sgn x\<bar> * \<bar>rq X - X\<bar> / S"
    using S by (simp add: abs_mult)
  also have "\<dots> \<le> \<bar>rq X - X\<bar> / S"
    using S by (simp add: sgn_if divide_right_mono)
  also have "\<dots> \<le> (X / 2 ^ 53 + 1 / 2) / S"
    using S rq_error [of X] by (intro divide_right_mono) (simp_all add: X_def)
  also have "\<dots> = \<bar>x\<bar> / 2 ^ 53 + 1 / 2 ^ Suc denorm"
    using S by (simp add: X_def S_def add_divide_distrib)
  finally show ?thesis .
qed


lemma quotient_error:
  fixes a W N D \<eta> :: real
  assumes "0 < a" and "a \<le> W" and "0 \<le> \<eta>" and "\<eta> \<le> W / 2 ^ 74"
    and "\<bar>N - a\<bar> \<le> a / 2 ^ 53 + \<eta>" and "\<bar>D - W\<bar> \<le> W / 2 ^ 53 + \<eta>"
  shows "0 < D" and "\<bar>N / D - a / W\<bar> \<le> 3 / 2 ^ 53"
proof -
  define Z where "Z = W * W"
  have W: "0 < W" using assms(1,2) by simp
  have Z: "0 < Z" using W by (simp add: Z_def)
  have D: "3 / 4 * W \<le> D" using assms(4,6) W by (simp add: abs_le_iff) 
  then show pos: "0 < D" using W by linarith
  have eW: "\<eta> * W \<le> Z / 2 ^ 74"
    using mult_right_mono [OF assms(4), of W] W by (simp add: Z_def)
  have "\<bar>N - a\<bar> * W \<le> (a / 2 ^ 53 + \<eta>) * W"
    using assms(5) W by (intro mult_right_mono) simp_all
  also have "\<dots> \<le> (W / 2 ^ 53 + \<eta>) * W"
    using assms(2) W by (intro mult_right_mono) simp_all
  finally have 1: "\<bar>N - a\<bar> * W \<le> Z / 2 ^ 53 + \<eta> * W"
    by (simp add: Z_def algebra_simps)
  have "a * \<bar>D - W\<bar> \<le> W * (W / 2 ^ 53 + \<eta>)"
    using assms(1,2,6) by (intro mult_mono) simp_all
  then have 2: "a * \<bar>D - W\<bar> \<le> Z / 2 ^ 53 + \<eta> * W"
    by (simp add: Z_def algebra_simps)
  have "N * W - a * D = (N - a) * W - a * (D - W)"
    by (simp add: algebra_simps)
  then have "\<bar>N * W - a * D\<bar> \<le> \<bar>(N - a) * W\<bar> + \<bar>a * (D - W)\<bar>"
    using abs_triangle_ineq4 [of "(N - a) * W" "a * (D - W)"] by simp
  also have "\<dots> = \<bar>N - a\<bar> * W + a * \<bar>D - W\<bar>"
    using W assms(1) by (simp add: abs_mult)
  finally have 3: "\<bar>N * W - a * D\<bar> \<le> 2 * Z / 2 ^ 53 + 2 * Z / 2 ^ 74"
    using 1 2 eW by linarith
  have "3 / 4 * W * W \<le> D * W"
    using D W by (intro mult_right_mono) simp_all
  then have 4: "3 / 4 * Z \<le> D * W" by (simp add: Z_def)
  have 5: "\<bar>N * W - a * D\<bar> \<le> 3 / 2 ^ 53 * (D * W)"
    using 3 4 Z by simp
  have "N / D - a / W = (N * W - a * D) / (D * W)"
    using pos W by (simp add: field_simps)
  then have "\<bar>N / D - a / W\<bar> = \<bar>N * W - a * D\<bar> / (D * W)"
    using pos W by (simp add: abs_mult)
  also have "\<dots> \<le> 3 / 2 ^ 53"
    using 5 pos W by (simp add: divide_le_eq)
  finally show "\<bar>N / D - a / W\<bar> \<le> 3 / 2 ^ 53" .
qed


lemma blend_error:
  fixes \<tau> T E M c \<eta> :: real
  assumes "0 \<le> \<eta>" and "\<eta> \<le> 1 / 2 ^ 60"
    and "\<bar>T - \<tau>\<bar> \<le> 4 / 2 ^ 53 + \<eta>" and "0 \<le> T" and "T \<le> 1"
    and "0 \<le> E" and "E \<le> 2 ^ 21"
    and "\<bar>M - T * E\<bar> \<le> \<bar>T * E\<bar> / 2 ^ 53 + \<eta>"
  shows "\<bar>M - \<tau> * E\<bar> \<le> 11 / 2 ^ 33"
proof -
  have "\<bar>T * E - \<tau> * E\<bar> = \<bar>T - \<tau>\<bar> * E"
    using assms(6) by (simp add: abs_mult flip: left_diff_distrib)
  also have "\<dots> \<le> (4 / 2 ^ 53 + \<eta>) * E"
    using assms(3,6) by (intro mult_right_mono) simp_all
  also have "\<dots> \<le> (4 / 2 ^ 53 + \<eta>) * 2 ^ 21"
    using assms(1,7) by (intro mult_left_mono) simp_all
  finally have 1: "\<bar>T * E - \<tau> * E\<bar> \<le> 4 / 2 ^ 32 + \<eta> * 2 ^ 21"
    by (simp add: algebra_simps)
  have "T * E \<le> 1 * E"
    using assms(5,6) by (intro mult_right_mono) simp_all
  then have "\<bar>T * E\<bar> \<le> 2 ^ 21"
    using assms(4,6,7) by (simp add: abs_mult)
  then have 2: "\<bar>M - T * E\<bar> \<le> 1 / 2 ^ 32 + \<eta>"
    using assms(8) by simp
  have "\<eta> * 2 ^ 21 \<le> 1 / 2 ^ 60 * 2 ^ 21"
    using assms(2) by (intro mult_right_mono) simp_all
  then have 3: "\<eta> * 2 ^ 21 \<le> 1 / 2 ^ 39" by simp
  have "\<bar>M - \<tau> * E\<bar> \<le> \<bar>M - T * E\<bar> + \<bar>T * E - \<tau> * E\<bar>"
    by simp
  then show ?thesis using 1 2 3 assms(2) by simp
qed

lemma interpolation_accuracy:
  fixes c d :: int
  assumes "is_double lo" and "is_double hi" and "js_sub (Fin hi) (Fin lo) \<noteq> PosInf"
    and "\<bar>c\<bar> \<le> 2 ^ 20" and "\<bar>d\<bar> \<le> 2 ^ 20" and "c \<le> d"
    and "lo < x" and "x < hi" and "1 / 2 ^ 1000 \<le> hi - lo"
  shows "\<bar>rd (of_int c + rd (fraction lo hi (Fin x) * (of_int d - of_int c)))
           - (of_int c + (x - lo) / (hi - lo) * (of_int d - of_int c))\<bar> \<le> 1 / 2 ^ 29"
    and "\<bar>rd (of_int d - rd (fraction lo hi (Fin x) * (of_int d - of_int c)))
           - (of_int d - (x - lo) / (hi - lo) * (of_int d - of_int c))\<bar> \<le> 1 / 2 ^ 29"
proof -
  define \<eta> :: real where "\<eta> = 1 / 2 ^ Suc denorm"
  define a where "a = x - lo"
  define W where "W = hi - lo"
  define N where "N = rd a"
  define D where "D = rd W"
  define T where "T = rd (N / D)"
  define E :: real where "E = of_int d - of_int c"
  define M where "M = rd (T * E)"
  define \<tau> where "\<tau> = a / W"
  have cd: "\<bar>c\<bar> \<le> 2 ^ 52" "\<bar>d\<bar> \<le> 2 ^ 52"
    using assms(4,5) by simp_all
  have eta: "0 \<le> \<eta>" "\<eta> \<le> 1 / 2 ^ 60" "\<eta> \<le> 1 / 2 ^ 1000 / 2 ^ 74"
    by (simp_all add: \<eta>_def denorm_def)
  have aW: "0 < a" "a \<le> W" "0 < W"
    using assms(7,8) by (simp_all add: a_def W_def)
  have "1 / 2 ^ 1000 / 2 ^ 74 \<le> W / 2 ^ 74"
    using assms(9) by (intro divide_right_mono) (simp_all add: W_def)
  then have etaW: "\<eta> \<le> W / 2 ^ 74"
    using eta(3) by linarith
  have eN: "\<bar>N - a\<bar> \<le> a / 2 ^ 53 + \<eta>"
    using rd_error [of a] aW(1) by (simp add: N_def \<eta>_def)
  have eD: "\<bar>D - W\<bar> \<le> W / 2 ^ 53 + \<eta>"
    using rd_error [of W] aW(3) by (simp add: D_def \<eta>_def)
  note q = quotient_error [OF aW(1,2) eta(1) etaW eN eD]
  have N: "0 \<le> N" "N \<le> D"
    using aW by (simp_all add: N_def D_def rd_nonneg rd_mono)
  then have ND: "0 \<le> N / D" "N / D \<le> 1"
    using q(1) by simp_all
  have f: "fraction lo hi (Fin x) = T"
    using assms(7,8) by (simp add: T_def N_def D_def a_def W_def)
  have T: "0 \<le> T" "T \<le> 1"
    using fraction_interior(2,3) [OF assms(1-3,7,8)] by (simp_all only: f)
  have "\<bar>T - N / D\<bar> \<le> \<bar>N / D\<bar> / 2 ^ 53 + \<eta>"
    using rd_error [of "N / D"] by (simp add: T_def \<eta>_def)
  then have "\<bar>T - N / D\<bar> \<le> 1 / 2 ^ 53 + \<eta>"
    using ND by simp
  moreover have "\<bar>T - \<tau>\<bar> \<le> \<bar>T - N / D\<bar> + \<bar>N / D - \<tau>\<bar>"
    by simp
  ultimately have eT: "\<bar>T - \<tau>\<bar> \<le> 4 / 2 ^ 53 + \<eta>"
    using q(2) by (simp add: \<tau>_def)
  have E: "0 \<le> E" "E \<le> 2 ^ 21"
  proof -
    show "0 \<le> E" using assms(6) by (simp add: E_def)
    have "d - c \<le> 2 ^ 21" using assms(4,5) by simp
    then have "(of_int (d - c) :: real) \<le> of_int (2 ^ 21)"
      by (rule of_int_le_iff [THEN iffD2])
    then show "E \<le> 2 ^ 21" by (simp add: E_def)
  qed
  have eM: "\<bar>M - T * E\<bar> \<le> \<bar>T * E\<bar> / 2 ^ 53 + \<eta>"
    using rd_error [of "T * E"] by (simp add: M_def \<eta>_def)
  note b = blend_error [OF eta(1,2) eT T E eM]
  have rE: "rd E = E"
    using bounds_exact(3) [OF cd] by (simp add: E_def)
  have "0 \<le> T * E" "T * E \<le> E"
    using T E(1) by (simp_all add: mult_left_le_one_le)
  then have M: "0 \<le> M" "M \<le> E"
    using rd_mono [of 0 "T * E"] rd_mono [of "T * E" E] rE by (simp_all add: M_def rd_zero)
  have c: "\<bar>of_int c :: real\<bar> \<le> 2 ^ 20" "\<bar>of_int d :: real\<bar> \<le> 2 ^ 20"
  proof -
    have "(of_int \<bar>c\<bar> :: real) \<le> of_int (2 ^ 20)" "(of_int \<bar>d\<bar> :: real) \<le> of_int (2 ^ 20)"
      using assms(4,5) by (simp_all only: of_int_le_iff)
    then show "\<bar>of_int c :: real\<bar> \<le> 2 ^ 20" "\<bar>of_int d :: real\<bar> \<le> 2 ^ 20"
      by simp_all
  qed
  have up: "\<bar>of_int c + M\<bar> \<le> 2 ^ 20" and down: "\<bar>of_int d - M\<bar> \<le> 2 ^ 20"
    using M c by (simp_all add: E_def abs_le_iff)
  have "\<bar>rd (of_int c + M) - (of_int c + M)\<bar> \<le> \<bar>of_int c + M\<bar> / 2 ^ 53 + \<eta>"
    using rd_error [of "of_int c + M"] by (simp add: \<eta>_def)
  then have 1: "\<bar>rd (of_int c + M) - (of_int c + M)\<bar> \<le> 1 / 2 ^ 33 + 1 / 2 ^ 60"
    using up eta(2) by simp
  have "\<bar>rd (of_int c + M) - (of_int c + \<tau> * E)\<bar>
      \<le> \<bar>rd (of_int c + M) - (of_int c + M)\<bar> + \<bar>M - \<tau> * E\<bar>"
    by simp
  then have "\<bar>rd (of_int c + M) - (of_int c + \<tau> * E)\<bar> \<le> 1 / 2 ^ 29"
    using 1 b by simp
  then show "\<bar>rd (of_int c + rd (fraction lo hi (Fin x) * (of_int d - of_int c)))
           - (of_int c + (x - lo) / (hi - lo) * (of_int d - of_int c))\<bar> \<le> 1 / 2 ^ 29"
    by (simp only: f M_def E_def \<tau>_def a_def W_def)
  have "\<bar>rd (of_int d - M) - (of_int d - M)\<bar> \<le> \<bar>of_int d - M\<bar> / 2 ^ 53 + \<eta>"
    using rd_error [of "of_int d - M"] by (simp add: \<eta>_def)
  then have 2: "\<bar>rd (of_int d - M) - (of_int d - M)\<bar> \<le> 1 / 2 ^ 33 + 1 / 2 ^ 60"
    using down eta(2) by simp
  have "\<bar>rd (of_int d - M) - (of_int d - \<tau> * E)\<bar>
      \<le> \<bar>rd (of_int d - M) - (of_int d - M)\<bar> + \<bar>M - \<tau> * E\<bar>"
    by simp
  then have "\<bar>rd (of_int d - M) - (of_int d - \<tau> * E)\<bar> \<le> 1 / 2 ^ 29"
    using 2 b by simp
  then show "\<bar>rd (of_int d - rd (fraction lo hi (Fin x) * (of_int d - of_int c)))
           - (of_int d - (x - lo) / (hi - lo) * (of_int d - of_int c))\<bar> \<le> 1 / 2 ^ 29"
    by (simp only: f M_def E_def \<tau>_def a_def W_def)
qed

lemma score_accuracy:
  fixes c d :: int
  assumes "is_double lo" and "is_double hi" and "js_sub (Fin hi) (Fin lo) \<noteq> PosInf"
    and "\<bar>c\<bar> \<le> 2 ^ 20" and "\<bar>d\<bar> \<le> 2 ^ 20" and "c \<le> d"
    and "lo < x" and "x < hi" and "1 / 2 ^ 1000 \<le> hi - lo"
  shows "\<exists>r::int. calculateProbability (Num (Fin x)) \<lparr>min_t = Fin lo, max_t = Fin hi\<rparr>
             (Fin (of_int c)) (Fin (of_int d)) True = Fin (of_int r)
           \<and> \<bar>of_int r - (of_int c + (x - lo) / (hi - lo) * (of_int d - of_int c))\<bar>
               \<le> 1 / 2 + 1 / 2 ^ 29"
    and "\<exists>r::int. calculateProbability (Num (Fin x)) \<lparr>min_t = Fin lo, max_t = Fin hi\<rparr>
             (Fin (of_int c)) (Fin (of_int d)) False = Fin (of_int r)
           \<and> \<bar>of_int r - (of_int d - (x - lo) / (hi - lo) * (of_int d - of_int c))\<bar>
               \<le> 1 / 2 + 1 / 2 ^ 29"
proof -
  have cd: "\<bar>c\<bar> \<le> 2 ^ 52" "\<bar>d\<bar> \<le> 2 ^ 52"
    using assms(4,5) by simp_all
  have v: "Fin x \<noteq> NaN" by simp
  note f = calc_fraction [OF assms(1-3) cd assms(6) v]
  note a = interpolation_accuracy [OF assms]
  define p where "p = rd (of_int c + rd (fraction lo hi (Fin x) * (of_int d - of_int c)))"
  define p' where "p' = rd (of_int d - rd (fraction lo hi (Fin x) * (of_int d - of_int c)))"
  have "\<bar>of_int (round p) - p\<bar> \<le> 1 / 2" "\<bar>of_int (round p') - p'\<bar> \<le> 1 / 2"
    by (rule of_int_round_abs_le)+
  then have "\<bar>of_int (round p) - (of_int c + (x - lo) / (hi - lo) * (of_int d - of_int c))\<bar>
               \<le> 1 / 2 + 1 / 2 ^ 29"
    and "\<bar>of_int (round p') - (of_int d - (x - lo) / (hi - lo) * (of_int d - of_int c))\<bar>
               \<le> 1 / 2 + 1 / 2 ^ 29"
    using a unfolding p_def [symmetric] p'_def [symmetric] by linarith+
  then show "\<exists>r::int. calculateProbability (Num (Fin x)) \<lparr>min_t = Fin lo, max_t = Fin hi\<rparr>
             (Fin (of_int c)) (Fin (of_int d)) True = Fin (of_int r)
           \<and> \<bar>of_int r - (of_int c + (x - lo) / (hi - lo) * (of_int d - of_int c))\<bar>
               \<le> 1 / 2 + 1 / 2 ^ 29"
    and "\<exists>r::int. calculateProbability (Num (Fin x)) \<lparr>min_t = Fin lo, max_t = Fin hi\<rparr>
             (Fin (of_int c)) (Fin (of_int d)) False = Fin (of_int r)
           \<and> \<bar>of_int r - (of_int d - (x - lo) / (hi - lo) * (of_int d - of_int c))\<bar>
               \<le> 1 / 2 + 1 / 2 ^ 29"
    using f unfolding p_def [symmetric] p'_def [symmetric] by blast+
qed

section \<open>The ascending and the descending score\<close>

text \<open>
  Claim C1. For a range with \<open>min < max\<close> and a value that is a number (not \<open>NaN\<close>),
  the ascending score is \<open>baseProb\<close> when the value is at most \<open>min\<close>, \<open>maxProb\<close>
  when it is at least \<open>max\<close>, and otherwise \<^verbatim>\<open>Math.round\<close> of
  \<open>baseProb + (value - min) / (max - min) * (maxProb - baseProb)\<close>, each operation a
  binary64 operation. For a finite range whose width does not overflow and integer bounds
  the four roundings are spelled out with \<^const>\<open>rd\<close>; when moreover the range is at
  least \<open>2^-1000\<close> wide and the bounds have magnitude at most \<open>2^20\<close>, the integer
  returned is within \<open>1/2 + 2^-29\<close> of the exact value of the expression, that is, a
  nearest integer up to the rounding error. In particular the score at
  \<open>min\<close> is \<open>baseProb\<close>, the score at \<open>max\<close> is \<open>maxProb\<close>, and a maximum
  temperature of 40 in the range from 25 to 40 scores 95.
\<close>

theorem calculateProbability_ascending:
  assumes "js_lt (min_t t) (max_t t)" and "v \<noteq> NaN"
  shows "(js_le v (min_t t) \<longrightarrow> calculateProbability (Num v) t b m True = b)
    \<and> (js_ge v (max_t t) \<longrightarrow> calculateProbability (Num v) t b m True = m)
    \<and> (\<not> js_le v (min_t t) \<and> \<not> js_ge v (max_t t) \<longrightarrow>
         calculateProbability (Num v) t b m True =
           Math_round (js_add b
             (js_mul (js_div (js_sub v (min_t t)) (js_sub (max_t t) (min_t t))) (js_sub m b))))
    \<and> (is_double lo \<and> is_double hi \<and> js_sub (Fin hi) (Fin lo) \<noteq> PosInf
         \<and> \<bar>c\<bar> \<le> 2 ^ 52 \<and> \<bar>d\<bar> \<le> 2 ^ 52 \<and> c \<le> d \<and> lo < x \<and> x < hi \<longrightarrow>
         calculateProbability (Num (Fin x)) \<lparr>min_t = Fin lo, max_t = Fin hi\<rparr>
             (Fin (of_int c)) (Fin (of_int d)) True =
           Fin (of_int (round (rd (of_int c
             + rd (rd (rd (x - lo) / rd (hi - lo)) * (of_int d - of_int c)))))))
    \<and> (is_double lo \<and> is_double hi \<and> js_sub (Fin hi) (Fin lo) \<noteq> PosInf
         \<and> 1 / 2 ^ 1000 \<le> hi - lo
         \<and> \<bar>c\<bar> \<le> 2 ^ 20 \<and> \<bar>d\<bar> \<le> 2 ^ 20 \<and> c \<le> d \<and> lo < x \<and> x < hi \<longrightarrow>
         (\<exists>r::int. calculateProbability (Num (Fin x)) \<lparr>min_t = Fin lo, max_t = Fin hi\<rparr>
             (Fin (of_int c)) (Fin (of_int d)) True = Fin (of_int r)
           \<and> \<bar>of_int r - (of_int c + (x - lo) / (hi - lo) * (of_int d - of_int c))\<bar>
               \<le> 1 / 2 + 1 / 2 ^ 29))
    \<and> calculateProbability (Num (min_t t)) t b m True = b
    \<and> calculateProbability (Num (max_t t)) t b m True = m
    \<and> calculateProbability (Num (Fin 40)) \<lparr>min_t = Fin 25, max_t = Fin 40\<rparr> (Fin 10) (Fin 95) True
        = Fin 95"
proof -
  note n = js_lt_not_NaN [OF assms(1)]
  have low: "js_le w (min_t t) \<Longrightarrow> w \<noteq> NaN \<Longrightarrow> calculateProbability (Num w) t b m True = b" for w
    by (simp add: calc_number)
  have high: "js_ge w (max_t t) \<Longrightarrow> w \<noteq> NaN \<Longrightarrow> calculateProbability (Num w) t b m True = m" for w
    using js_ge_above [OF assms(1)] by (simp add: calc_number)
  have 1: "js_le v (min_t t) \<longrightarrow> calculateProbability (Num v) t b m True = b"
    using low assms(2) by simp
  have 2: "js_ge v (max_t t) \<longrightarrow> calculateProbability (Num v) t b m True = m"
    using high assms(2) by simp
  have 3: "\<not> js_le v (min_t t) \<and> \<not> js_ge v (max_t t) \<longrightarrow>
         calculateProbability (Num v) t b m True =
           Math_round (js_add b
             (js_mul (js_div (js_sub v (min_t t)) (js_sub (max_t t) (min_t t))) (js_sub m b)))"
    using assms(2) by (simp add: calc_number)
  have 4: "is_double lo \<and> is_double hi \<and> js_sub (Fin hi) (Fin lo) \<noteq> PosInf
         \<and> \<bar>c\<bar> \<le> 2 ^ 52 \<and> \<bar>d\<bar> \<le> 2 ^ 52 \<and> c \<le> d \<and> lo < x \<and> x < hi \<longrightarrow>
         calculateProbability (Num (Fin x)) \<lparr>min_t = Fin lo, max_t = Fin hi\<rparr>
             (Fin (of_int c)) (Fin (of_int d)) True =
           Fin (of_int (round (rd (of_int c
             + rd (rd (rd (x - lo) / rd (hi - lo)) * (of_int d - of_int c))))))"
  proof
    assume h: "is_double lo \<and> is_double hi \<and> js_sub (Fin hi) (Fin lo) \<noteq> PosInf
         \<and> \<bar>c\<bar> \<le> 2 ^ 52 \<and> \<bar>d\<bar> \<le> 2 ^ 52 \<and> c \<le> d \<and> lo < x \<and> x < hi"
    then have "fraction lo hi (Fin x) = rd (rd (x - lo) / rd (hi - lo))"
      by simp
    then show "calculateProbability (Num (Fin x)) \<lparr>min_t = Fin lo, max_t = Fin hi\<rparr>
             (Fin (of_int c)) (Fin (of_int d)) True =
           Fin (of_int (round (rd (of_int c
             + rd (rd (rd (x - lo) / rd (hi - lo)) * (of_int d - of_int c))))))"
      using calc_fraction(1) [of lo hi c d "Fin x"] h by simp
  qed
  have 8: "is_double lo \<and> is_double hi \<and> js_sub (Fin hi) (Fin lo) \<noteq> PosInf
         \<and> 1 / 2 ^ 1000 \<le> hi - lo
         \<and> \<bar>c\<bar> \<le> 2 ^ 20 \<and> \<bar>d\<bar> \<le> 2 ^ 20 \<and> c \<le> d \<and> lo < x \<and> x < hi \<longrightarrow>
         (\<exists>r::int. calculateProbability (Num (Fin x)) \<lparr>min_t = Fin lo, max_t = Fin hi\<rparr>
             (Fin (of_int c)) (Fin (of_int d)) True = Fin (of_int r)
           \<and> \<bar>of_int r - (of_int c + (x - lo) / (hi - lo) * (of_int d - of_int c))\<bar>
               \<le> 1 / 2 + 1 / 2 ^ 29)"
    using score_accuracy(1) [of lo hi c d x] by blast
  have 5: "calculateProbability (Num (min_t t)) t b m True = b"
    using n by (intro low) (simp_all add: js_le_def js_lt_irrefl)
  have 6: "calculateProbability (Num (max_t t)) t b m True = m"
    using n by (intro high) (simp_all add: js_ge_def js_lt_irrefl)
  have 7: "calculateProbability (Num (Fin 40)) \<lparr>min_t = Fin 25, max_t = Fin 40\<rparr> (Fin 10) (Fin 95) True
        = Fin 95"
    by (simp add: calc_number js_cmp)
  from 1 2 3 4 5 6 7 8 show ?thesis by blast
qed

theorem calculateProbability_ascending_witness:
  "js_lt (Fin 25) (Fin 40) \<and> Fin 30 \<noteq> NaN
   \<and> js_le (Fin 20) (Fin 25)
   \<and> calculateProbability (Num (Fin 20)) \<lparr>min_t = Fin 25, max_t = Fin 40\<rparr> (Fin 10) (Fin 95) True = Fin 10
   \<and> js_ge (Fin 50) (Fin 40)
   \<and> calculateProbability (Num (Fin 50)) \<lparr>min_t = Fin 25, max_t = Fin 40\<rparr> (Fin 10) (Fin 95) True = Fin 95
   \<and> \<not> js_le (Fin 30) (Fin 25) \<and> \<not> js_ge (Fin 30) (Fin 40)
   \<and> is_double 25 \<and> is_double 40 \<and> js_sub (Fin 40) (Fin 25) \<noteq> PosInf
   \<and> (1 :: real) / 2 ^ 1000 \<le> 40 - 25
   \<and> \<bar>10 :: int\<bar> \<le> 2 ^ 20 \<and> \<bar>95 :: int\<bar> \<le> 2 ^ 20 \<and> (10 :: int) \<le> 95
   \<and> (25 :: real) < 30 \<and> (30 :: real) < 40
   \<and> calculateProbability (Num (Fin 30)) \<lparr>min_t = Fin 25, max_t = Fin 40\<rparr> (Fin 10) (Fin 95) True = Fin 38
   \<and> round (rd (10 + rd (rd (rd (30 - 25) / rd (40 - 25)) * (95 - 10)))) = 38
   \<and> \<bar>38 - (10 + (30 - 25) / (40 - 25) * (95 - 10)) :: real\<bar> \<le> 1 / 2 + 1 / 2 ^ 29"
proof -
  note w = dashboard_doubles(1,2) dashboard_widths(1)
  note a = calculateProbability_ascending [where t = "\<lparr>min_t = Fin 25, max_t = Fin 40\<rparr>"
        and b = "Fin 10" and m = "Fin 95" and lo = 25 and hi = 40 and c = 10 and d = 95 and x = 30]
  have i: "calculateProbability (Num (Fin 30)) \<lparr>min_t = Fin 25, max_t = Fin 40\<rparr> (Fin 10) (Fin 95) True
      = Fin 38"
    using a [where v = "Fin 30", THEN conjunct2, THEN conjunct2, THEN conjunct1]
    by (simp add: js_cmp js_sub_Fin fl_eval round_def)
  have r: "round (rd (10 + rd (rd (rd (30 - 25) / rd (40 - 25)) * (95 - 10)))) = 38"
    using a [where v = "Fin 30", THEN conjunct2, THEN conjunct2, THEN conjunct2, THEN conjunct1] w i
    by simp
  have "\<exists>r::int. Fin 38 = Fin (of_int r)
      \<and> \<bar>of_int r - (10 + (30 - 25) / (40 - 25) * (95 - 10)) :: real\<bar> \<le> 1 / 2 + 1 / 2 ^ 29"
    using a [where v = "Fin 30", THEN conjunct2, THEN conjunct2, THEN conjunct2, THEN conjunct2,
        THEN conjunct1] w i
    by simp
  then obtain k :: int where "(38 :: real) = of_int k"
    and "\<bar>of_int k - (10 + (30 - 25) / (40 - 25) * (95 - 10)) :: real\<bar> \<le> 1 / 2 + 1 / 2 ^ 29"
    by auto
  then have e: "\<bar>38 - (10 + (30 - 25) / (40 - 25) * (95 - 10)) :: real\<bar> \<le> 1 / 2 + 1 / 2 ^ 29"
    by simp
  have l: "calculateProbability (Num (Fin 20)) \<lparr>min_t = Fin 25, max_t = Fin 40\<rparr> (Fin 10) (Fin 95) True = Fin 10"
    using a [where v = "Fin 20", THEN conjunct1] by (simp add: js_cmp)
  have h: "calculateProbability (Num (Fin 50)) \<lparr>min_t = Fin 25, max_t = Fin 40\<rparr> (Fin 10) (Fin 95) True = Fin 95"
    using a [where v = "Fin 50", THEN conjunct2, THEN conjunct1] by (simp add: js_cmp)
  show ?thesis
    using w i r e l h by (simp add: js_cmp)
qed

text \<open>
  Claim C2. With the direction flag false the endpoints are swapped: \<open>maxProb\<close> when
  the value is at most \<open>min\<close>, \<open>baseProb\<close> when it is at least \<open>max\<close>, and
  otherwise \<^verbatim>\<open>Math.round\<close> of
  \<open>maxProb - (value - min) / (max - min) * (maxProb - baseProb)\<close>. For every number this
  is the ascending score with \<open>baseProb\<close> and \<open>maxProb\<close> exchanged, also after
  rounding, and under the conditions of claim C1 the integer returned is within
  \<open>1/2 + 2^-29\<close> of the exact value of the expression. In particular the score at \<open>min\<close> is \<open>maxProb\<close>, the score at \<open>max\<close>
  is \<open>baseProb\<close>, and a minimum temperature of 10 in the range from -5 to 10 scores 10.
\<close>

theorem calculateProbability_descending:
  assumes "js_lt (min_t t) (max_t t)" and "v \<noteq> NaN"
  shows "(js_le v (min_t t) \<longrightarrow> calculateProbability (Num v) t b m False = m)
    \<and> (js_ge v (max_t t) \<longrightarrow> calculateProbability (Num v) t b m False = b)
    \<and> (\<not> js_le v (min_t t) \<and> \<not> js_ge v (max_t t) \<longrightarrow>
         calculateProbability (Num v) t b m False =
           Math_round (js_sub m
             (js_mul (js_div (js_sub v (min_t t)) (js_sub (max_t t) (min_t t))) (js_sub m b))))
    \<and> calculateProbability (Num v) t b m False = calculateProbability (Num v) t m b True
    \<and> (is_double lo \<and> is_double hi \<and> js_sub (Fin hi) (Fin lo) \<noteq> PosInf
         \<and> 1 / 2 ^ 1000 \<le> hi - lo
         \<and> \<bar>c\<bar> \<le> 2 ^ 20 \<and> \<bar>d\<bar> \<le> 2 ^ 20 \<and> c \<le> d \<and> lo < x \<and> x < hi \<longrightarrow>
         (\<exists>r::int. calculateProbability (Num (Fin x)) \<lparr>min_t = Fin lo, max_t = Fin hi\<rparr>
             (Fin (of_int c)) (Fin (of_int d)) False = Fin (of_int r)
           \<and> \<bar>of_int r - (of_int d - (x - lo) / (hi - lo) * (of_int d - of_int c))\<bar>
               \<le> 1 / 2 + 1 / 2 ^ 29))
    \<and> calculateProbability (Num (min_t t)) t b m False = m
    \<and> calculateProbability (Num (max_t t)) t b m False = b
    \<and> calculateProbability (Num (Fin 10)) \<lparr>min_t = Fin (- 5), max_t = Fin 10\<rparr> (Fin 10) (Fin 95) False
        = Fin 10"
proof -
  note n = js_lt_not_NaN [OF assms(1)]
  have low: "js_le w (min_t t) \<Longrightarrow> w \<noteq> NaN \<Longrightarrow> calculateProbability (Num w) t b m False = m" for w
    by (simp add: calc_number)
  have high: "js_ge w (max_t t) \<Longrightarrow> w \<noteq> NaN \<Longrightarrow> calculateProbability (Num w) t b m False = b" for w
    using js_ge_above [OF assms(1)] by (simp add: calc_number)
  have 1: "js_le v (min_t t) \<longrightarrow> calculateProbability (Num v) t b m False = m"
    using low assms(2) by simp
  have 2: "js_ge v (max_t t) \<longrightarrow> calculateProbability (Num v) t b m False = b"
    using high assms(2) by simp
  have 3: "\<not> js_le v (min_t t) \<and> \<not> js_ge v (max_t t) \<longrightarrow>
         calculateProbability (Num v) t b m False =
           Math_round (js_sub m
             (js_mul (js_div (js_sub v (min_t t)) (js_sub (max_t t) (min_t t))) (js_sub m b)))"
    using assms(2) by (simp add: calc_number)
  have 4: "calculateProbability (Num v) t b m False = calculateProbability (Num v) t m b True"
    using assms(2) by (simp add: calc_number swapped_interpolation)
  have 5: "calculateProbability (Num (min_t t)) t b m False = m"
    using n by (intro low) (simp_all add: js_le_def js_lt_irrefl)
  have 6: "calculateProbability (Num (max_t t)) t b m False = b"
    using n by (intro high) (simp_all add: js_ge_def js_lt_irrefl)
  have 7: "calculateProbability (Num (Fin 10)) \<lparr>min_t = Fin (- 5), max_t = Fin 10\<rparr> (Fin 10) (Fin 95) False
        = Fin 10"
    by (simp add: calc_number js_cmp)
  have 8: "is_double lo \<and> is_double hi \<and> js_sub (Fin hi) (Fin lo) \<noteq> PosInf
         \<and> 1 / 2 ^ 1000 \<le> hi - lo
         \<and> \<bar>c\<bar> \<le> 2 ^ 20 \<and> \<bar>d\<bar> \<le> 2 ^ 20 \<and> c \<le> d \<and> lo < x \<and> x < hi \<longrightarrow>
         (\<exists>r::int. calculateProbability (Num (Fin x)) \<lparr>min_t = Fin lo, max_t = Fin hi\<rparr>
             (Fin (of_int c)) (Fin (of_int d)) False = Fin (of_int r)
           \<and> \<bar>of_int r - (of_int d - (x - lo) / (hi - lo) * (of_int d - of_int c))\<bar>
               \<le> 1 / 2 + 1 / 2 ^ 29)"
    using score_accuracy(2) [of lo hi c d x] by blast
  from 1 2 3 4 5 6 7 8 show ?thesis by blast
qed

theorem calculateProbability_descending_witness:
  "js_lt (Fin (- 5)) (Fin 10) \<and> Fin 4 \<noteq> NaN
   \<and> js_le (Fin (- 8)) (Fin (- 5))
   \<and> calculateProbability (Num (Fin (- 8))) \<lparr>min_t = Fin (- 5), max_t = Fin 10\<rparr> (Fin 10) (Fin 95) False = Fin 95
   \<and> js_ge (Fin 12) (Fin 10)
   \<and> calculateProbability (Num (Fin 12)) \<lparr>min_t = Fin (- 5), max_t = Fin 10\<rparr> (Fin 10) (Fin 95) False = Fin 10
   \<and> \<not> js_le (Fin 4) (Fin (- 5)) \<and> \<not> js_ge (Fin 4) (Fin 10)
   \<and> calculateProbability (Num (Fin 4)) \<lparr>min_t = Fin (- 5), max_t = Fin 10\<rparr> (Fin 10) (Fin 95) False = Fin 44
   \<and> calculateProbability (Num (Fin 4)) \<lparr>min_t = Fin (- 5), max_t = Fin 10\<rparr> (Fin 95) (Fin 10) True = Fin 44
   \<and> is_double (- 5) \<and> is_double 10 \<and> js_sub (Fin 10) (Fin (- 5)) \<noteq> PosInf
   \<and> (1 :: real) / 2 ^ 1000 \<le> 10 - (- 5)
   \<and> \<bar>10 :: int\<bar> \<le> 2 ^ 20 \<and> \<bar>95 :: int\<bar> \<le> 2 ^ 20 \<and> (10 :: int) \<le> 95
   \<and> (- 5 :: real) < 4 \<and> (4 :: real) < 10
   \<and> \<bar>44 - (95 - (4 - (- 5)) / (10 - (- 5)) * (95 - 10)) :: real\<bar> \<le> 1 / 2 + 1 / 2 ^ 29"
proof -
  note w = dashboard_doubles(3,4) dashboard_widths(2)
  note d = calculateProbability_descending [where t = "\<lparr>min_t = Fin (- 5), max_t = Fin 10\<rparr>"
      and b = "Fin 10" and m = "Fin 95" and lo = "- 5" and hi = 10 and c = 10 and d = 95 and x = 4]
  have i: "calculateProbability (Num (Fin 4)) \<lparr>min_t = Fin (- 5), max_t = Fin 10\<rparr> (Fin 10) (Fin 95) False
      = Fin 44"
    using d [where v = "Fin 4", THEN conjunct2, THEN conjunct2, THEN conjunct1]
    by (simp add: js_cmp js_sub_Fin fl_eval round_def)
  have s: "calculateProbability (Num (Fin 4)) \<lparr>min_t = Fin (- 5), max_t = Fin 10\<rparr> (Fin 95) (Fin 10) True
      = Fin 44"
    using d [where v = "Fin 4", THEN conjunct2, THEN conjunct2, THEN conjunct2, THEN conjunct1] i
    by simp
  have "\<exists>r::int. Fin 44 = Fin (of_int r)
      \<and> \<bar>of_int r - (95 - (4 - (- 5)) / (10 - (- 5)) * (95 - 10)) :: real\<bar> \<le> 1 / 2 + 1 / 2 ^ 29"
    using d [where v = "Fin 4", THEN conjunct2, THEN conjunct2, THEN conjunct2, THEN conjunct2,
        THEN conjunct1] w i
    by simp
  then obtain k :: int where "(44 :: real) = of_int k"
    and "\<bar>of_int k - (95 - (4 - (- 5)) / (10 - (- 5)) * (95 - 10)) :: real\<bar> \<le> 1 / 2 + 1 / 2 ^ 29"
    by auto
  then have e: "\<bar>44 - (95 - (4 - (- 5)) / (10 - (- 5)) * (95 - 10)) :: real\<bar> \<le> 1 / 2 + 1 / 2 ^ 29"
    by simp
  have l: "calculateProbability (Num (Fin (- 8))) \<lparr>min_t = Fin (- 5), max_t = Fin 10\<rparr> (Fin 10) (Fin 95) False = Fin 95"
    using d [where v = "Fin (- 8)", THEN conjunct1] by (simp add: js_cmp)
  have h: "calculateProbability (Num (Fin 12)) \<lparr>min_t = Fin (- 5), max_t = Fin 10\<rparr> (Fin 10) (Fin 95) False = Fin 10"
    using d [where v = "Fin 12", THEN conjunct2, THEN conjunct1] by (simp add: js_cmp)
  show ?thesis
    using w i s e l h by (simp add: js_cmp)
qed

section \<open>Missing values\<close>

text \<open>
  Claim C3. A value that is \<^verbatim>\<open>null\<close>, \<^verbatim>\<open>undefined\<close> or \<open>NaN\<close> scores
  \<open>baseProb\<close>, whatever the range, the bounds and the direction; the function has no
  failing branch.
\<close>

theorem calculateProbability_missing_value:
  "v = Null \<or> v = Undefined \<or> v = Num NaN \<Longrightarrow> calculateProbability v t b m asc = b"
  by (auto simp: calculateProbability_def isNaN_def)

theorem calculateProbability_missing_value_witness:
  "calculateProbability Null \<lparr>min_t = Fin 25, max_t = Fin 40\<rparr> (Fin 10) (Fin 95) True = Fin 10
   \<and> calculateProbability Undefined \<lparr>min_t = Fin (- 5), max_t = Fin 10\<rparr> (Fin 10) (Fin 95) False = Fin 10
   \<and> calculateProbability (Num NaN) \<lparr>min_t = Fin 50, max_t = Fin 500\<rparr> (Fin 5) (Fin 80) True = Fin 5"
  using
    calculateProbability_missing_value [of Null "\<lparr>min_t = Fin 25, max_t = Fin 40\<rparr>" "Fin 10" "Fin 95" True]
    calculateProbability_missing_value [of Undefined "\<lparr>min_t = Fin (- 5), max_t = Fin 10\<rparr>" "Fin 10" "Fin 95" False]
    calculateProbability_missing_value [of "Num NaN" "\<lparr>min_t = Fin 50, max_t = Fin 500\<rparr>" "Fin 5" "Fin 80" True]
  by simp

section \<open>Direction and bounds of the score\<close>

text \<open>
  Claim C5, as stated: for every range with \<open>min < max\<close> and every \<open>baseProb\<close> and
  \<open>maxProb\<close>, the ascending score never decreases and the descending score never
  increases when the value grows. The code does not do that for every range and bound.
  With \<open>baseProb = 95\<close> above \<open>maxProb = 10\<close> the ascending score falls from 95 at
  \<open>min\<close> to 10 at \<open>max\<close>. With the fractional bounds 0.25 and 0.375 the score at
  \<open>min\<close> is the unrounded 0.25 and the score in the middle of the range is
  \<open>Math.round(0.3125) = 0\<close>. With the range from \<open>-Infinity\<close> to \<open>Infinity\<close>, and
  with the finite range from \<open>-2^1023\<close> to \<open>1.5 * 2^1023\<close> whose width overflows, a
  value inside scores \<open>NaN\<close>, which compares with nothing. With the bounds
  \<open>-2^1023\<close> and \<open>2^1023\<close> their difference overflows and a value inside the range
  scores \<open>Infinity\<close>, above the score \<open>2^1023\<close> at \<open>max\<close>.
\<close>

theorem calculateProbability_monotone_counterexample:
  "js_lt (Fin 25) (Fin 40)
   \<and> \<not> js_le
      (calculateProbability (Num (Fin 25)) \<lparr>min_t = Fin 25, max_t = Fin 40\<rparr> (Fin 95) (Fin 10) True)
      (calculateProbability (Num (Fin 40)) \<lparr>min_t = Fin 25, max_t = Fin 40\<rparr> (Fin 95) (Fin 10) True)
   \<and> js_lt (Fin 0) (Fin 8) \<and> js_lt (Fin 0) (Fin 4)
   \<and> \<not> js_le
      (calculateProbability (Num (Fin 0)) \<lparr>min_t = Fin 0, max_t = Fin 8\<rparr> (Fin 0.25) (Fin 0.375) True)
      (calculateProbability (Num (Fin 4)) \<lparr>min_t = Fin 0, max_t = Fin 8\<rparr> (Fin 0.25) (Fin 0.375) True)
   \<and> js_lt NegInf PosInf \<and> js_lt (Fin 0) (Fin 1)
   \<and> \<not> js_le
      (calculateProbability (Num (Fin 0)) \<lparr>min_t = NegInf, max_t = PosInf\<rparr> (Fin 10) (Fin 95) True)
      (calculateProbability (Num (Fin 1)) \<lparr>min_t = NegInf, max_t = PosInf\<rparr> (Fin 10) (Fin 95) True)
   \<and> js_lt (Fin (- (2 ^ 1023))) (Fin (3 * 2 ^ 1022)) \<and> js_lt (Fin (2 ^ 1023)) (Fin (5 * 2 ^ 1021))
   \<and> \<not> js_le
      (calculateProbability (Num (Fin (2 ^ 1023)))
         \<lparr>min_t = Fin (- (2 ^ 1023)), max_t = Fin (3 * 2 ^ 1022)\<rparr> (Fin 10) (Fin 95) True)
      (calculateProbability (Num (Fin (5 * 2 ^ 1021)))
         \<lparr>min_t = Fin (- (2 ^ 1023)), max_t = Fin (3 * 2 ^ 1022)\<rparr> (Fin 10) (Fin 95) True)
   \<and> js_lt (Fin 0) (Fin 10) \<and> js_lt (Fin 5) (Fin 10)
   \<and> \<not> js_le
      (calculateProbability (Num (Fin 5)) \<lparr>min_t = Fin 0, max_t = Fin 10\<rparr>
         (Fin (- (2 ^ 1023))) (Fin (2 ^ 1023)) True)
      (calculateProbability (Num (Fin 10)) \<lparr>min_t = Fin 0, max_t = Fin 10\<rparr>
         (Fin (- (2 ^ 1023))) (Fin (2 ^ 1023)) True)"
proof -
  have a: "\<not> js_le
      (calculateProbability (Num (Fin 25)) \<lparr>min_t = Fin 25, max_t = Fin 40\<rparr> (Fin 95) (Fin 10) True)
      (calculateProbability (Num (Fin 40)) \<lparr>min_t = Fin 25, max_t = Fin 40\<rparr> (Fin 95) (Fin 10) True)"
    by (simp add: calc_number js_cmp)
  have b: "\<not> js_le
      (calculateProbability (Num (Fin 0)) \<lparr>min_t = Fin 0, max_t = Fin 8\<rparr> (Fin 0.25) (Fin 0.375) True)
      (calculateProbability (Num (Fin 4)) \<lparr>min_t = Fin 0, max_t = Fin 8\<rparr> (Fin 0.25) (Fin 0.375) True)"
    by (simp add: score_eval)
  have c: "\<not> js_le
      (calculateProbability (Num (Fin 0)) \<lparr>min_t = NegInf, max_t = PosInf\<rparr> (Fin 10) (Fin 95) True)
      (calculateProbability (Num (Fin 1)) \<lparr>min_t = NegInf, max_t = PosInf\<rparr> (Fin 10) (Fin 95) True)"
    by (simp add: calc_number js_cmp js_sub_def)
  have d: "\<not> js_le
      (calculateProbability (Num (Fin (2 ^ 1023)))
         \<lparr>min_t = Fin (- (2 ^ 1023)), max_t = Fin (3 * 2 ^ 1022)\<rparr> (Fin 10) (Fin 95) True)
      (calculateProbability (Num (Fin (5 * 2 ^ 1021)))
         \<lparr>min_t = Fin (- (2 ^ 1023)), max_t = Fin (3 * 2 ^ 1022)\<rparr> (Fin 10) (Fin 95) True)"
    by (simp add: calc_number js_cmp js_sub_Fin fl_overflow emax_def)
  have "calculateProbability (Num (Fin 5)) \<lparr>min_t = Fin 0, max_t = Fin 10\<rparr>
         (Fin (- (2 ^ 1023))) (Fin (2 ^ 1023)) True = PosInf"
    apply (simp add: calc_number js_cmp js_sub_Fin fl_overflow emax_def)
    apply (simp add: fl_eval signed_inf_def)
    done
  then have e: "\<not> js_le
      (calculateProbability (Num (Fin 5)) \<lparr>min_t = Fin 0, max_t = Fin 10\<rparr>
         (Fin (- (2 ^ 1023))) (Fin (2 ^ 1023)) True)
      (calculateProbability (Num (Fin 10)) \<lparr>min_t = Fin 0, max_t = Fin 10\<rparr>
         (Fin (- (2 ^ 1023))) (Fin (2 ^ 1023)) True)"
    by (simp add: calc_number js_cmp)
  from a b c d e show ?thesis by simp
qed

text \<open>
  Claim C5, amended: for a range of binary64 numbers \<open>min < max\<close> whose width
  \<open>max - min\<close> does not overflow and integer bounds \<open>baseProb \<le> maxProb\<close> of
  magnitude at most \<open>2^52\<close>, a smaller value never has the greater ascending score and
  never the smaller descending score.
\<close>

theorem calculateProbability_monotone:
  assumes "is_double lo" and "is_double hi" and "lo < hi"
    and "js_sub (Fin hi) (Fin lo) \<noteq> PosInf"
    and "\<bar>c\<bar> \<le> 2 ^ 52" and "\<bar>d\<bar> \<le> 2 ^ 52" and "c \<le> d"
    and "js_lt v w"
  shows "js_le
      (calculateProbability (Num v) \<lparr>min_t = Fin lo, max_t = Fin hi\<rparr> (Fin (of_int c)) (Fin (of_int d)) True)
      (calculateProbability (Num w) \<lparr>min_t = Fin lo, max_t = Fin hi\<rparr> (Fin (of_int c)) (Fin (of_int d)) True)
    \<and> js_ge
      (calculateProbability (Num v) \<lparr>min_t = Fin lo, max_t = Fin hi\<rparr> (Fin (of_int c)) (Fin (of_int d)) False)
      (calculateProbability (Num w) \<lparr>min_t = Fin lo, max_t = Fin hi\<rparr> (Fin (of_int c)) (Fin (of_int d)) False)"
  using calc_monotone [OF assms(1,2,4-8)] by simp

theorem calculateProbability_monotone_witness:
  "is_double 25 \<and> is_double 40 \<and> (25 :: real) < 40 \<and> js_sub (Fin 40) (Fin 25) \<noteq> PosInf
   \<and> \<bar>10 :: int\<bar> \<le> 2 ^ 52 \<and> \<bar>95 :: int\<bar> \<le> 2 ^ 52 \<and> (10 :: int) \<le> 95
   \<and> js_lt (Fin 30) (Fin 35)
   \<and> js_le
      (calculateProbability (Num (Fin 30)) \<lparr>min_t = Fin 25, max_t = Fin 40\<rparr> (Fin 10) (Fin 95) True)
      (calculateProbability (Num (Fin 35)) \<lparr>min_t = Fin 25, max_t = Fin 40\<rparr> (Fin 10) (Fin 95) True)
   \<and> js_ge
      (calculateProbability (Num (Fin 30)) \<lparr>min_t = Fin 25, max_t = Fin 40\<rparr> (Fin 10) (Fin 95) False)
      (calculateProbability (Num (Fin 35)) \<lparr>min_t = Fin 25, max_t = Fin 40\<rparr> (Fin 10) (Fin 95) False)"
  using calculateProbability_monotone [of 25 40 10 95 "Fin 30" "Fin 35"]
    dashboard_doubles(1,2) dashboard_widths(1)
  by simp

text \<open>
  Claim C6, as stated: for every range with \<open>min < max\<close>, every \<open>baseProb\<close> and
  \<open>maxProb\<close> and every value, the score lies between \<open>baseProb\<close> and \<open>maxProb\<close>.
  The same inputs refute it: with the bounds 95 and 10 the score 95 is above
  \<open>maxProb\<close>; with the bounds 10.25 and 10.5 the score in the middle of the range is
  \<open>Math.round(10.375) = 10\<close>, below \<open>baseProb\<close>; with an infinite range or a width
  that overflows the score is \<open>NaN\<close>; with the bounds \<open>-2^1023\<close> and \<open>2^1023\<close> it
  is \<open>Infinity\<close>.
\<close>

theorem calculateProbability_bounds_counterexample:
  "js_lt (Fin 25) (Fin 40)
   \<and> \<not> js_le
      (calculateProbability (Num (Fin 25)) \<lparr>min_t = Fin 25, max_t = Fin 40\<rparr> (Fin 95) (Fin 10) True)
      (Fin 10)
   \<and> js_lt (Fin 0) (Fin 8)
   \<and> \<not> js_le (Fin 10.25)
      (calculateProbability (Num (Fin 4)) \<lparr>min_t = Fin 0, max_t = Fin 8\<rparr> (Fin 10.25) (Fin 10.5) True)
   \<and> js_lt NegInf PosInf
   \<and> \<not> js_le (Fin 10)
      (calculateProbability (Num (Fin 0)) \<lparr>min_t = NegInf, max_t = PosInf\<rparr> (Fin 10) (Fin 95) True)
   \<and> js_lt (Fin (- (2 ^ 1023))) (Fin (3 * 2 ^ 1022))
   \<and> \<not> js_le (Fin 10)
      (calculateProbability (Num (Fin (2 ^ 1023)))
         \<lparr>min_t = Fin (- (2 ^ 1023)), max_t = Fin (3 * 2 ^ 1022)\<rparr> (Fin 10) (Fin 95) True)
   \<and> js_lt (Fin 0) (Fin 10)
   \<and> \<not> js_le
      (calculateProbability (Num (Fin 5)) \<lparr>min_t = Fin 0, max_t = Fin 10\<rparr>
         (Fin (- (2 ^ 1023))) (Fin (2 ^ 1023)) True)
      (Fin (2 ^ 1023))"
proof -
  have a: "\<not> js_le
      (calculateProbability (Num (Fin 25)) \<lparr>min_t = Fin 25, max_t = Fin 40\<rparr> (Fin 95) (Fin 10) True)
      (Fin 10)"
    by (simp add: calc_number js_cmp)
  have b: "\<not> js_le (Fin 10.25)
      (calculateProbability (Num (Fin 4)) \<lparr>min_t = Fin 0, max_t = Fin 8\<rparr> (Fin 10.25) (Fin 10.5) True)"
    by (simp add: score_eval)
  have c: "\<not> js_le (Fin 10)
      (calculateProbability (Num (Fin 0)) \<lparr>min_t = NegInf, max_t = PosInf\<rparr> (Fin 10) (Fin 95) True)"
    by (simp add: calc_number js_cmp js_sub_def)
  have d: "\<not> js_le (Fin 10)
      (calculateProbability (Num (Fin (2 ^ 1023)))
         \<lparr>min_t = Fin (- (2 ^ 1023)), max_t = Fin (3 * 2 ^ 1022)\<rparr> (Fin 10) (Fin 95) True)"
    by (simp add: calc_number js_cmp js_sub_Fin fl_overflow emax_def)
  have "calculateProbability (Num (Fin 5)) \<lparr>min_t = Fin 0, max_t = Fin 10\<rparr>
         (Fin (- (2 ^ 1023))) (Fin (2 ^ 1023)) True = PosInf"
    apply (simp add: calc_number js_cmp js_sub_Fin fl_overflow emax_def)
    apply (simp add: fl_eval signed_inf_def)
    done
  then have e: "\<not> js_le
      (calculateProbability (Num (Fin 5)) \<lparr>min_t = Fin 0, max_t = Fin 10\<rparr>
         (Fin (- (2 ^ 1023))) (Fin (2 ^ 1023)) True)
      (Fin (2 ^ 1023))"
    by (simp add: js_cmp)
  from a b c d e show ?thesis by simp
qed

text \<open>
  Claim C6, amended: for a range of binary64 numbers \<open>min < max\<close> whose width does
  not overflow and integer bounds \<open>baseProb \<le> maxProb\<close> of magnitude at most \<open>2^52\<close>,
  the score of every value (a number, \<open>NaN\<close>, \<^verbatim>\<open>null\<close> or \<^verbatim>\<open>undefined\<close>) and
  either direction lies between \<open>baseProb\<close> and \<open>maxProb\<close>.
\<close>

theorem calculateProbability_bounds:
  assumes "is_double lo" and "is_double hi" and "lo < hi"
    and "js_sub (Fin hi) (Fin lo) \<noteq> PosInf"
    and "\<bar>c\<bar> \<le> 2 ^ 52" and "\<bar>d\<bar> \<le> 2 ^ 52" and "c \<le> d"
  shows "js_le (Fin (of_int c))
      (calculateProbability v \<lparr>min_t = Fin lo, max_t = Fin hi\<rparr> (Fin (of_int c)) (Fin (of_int d)) asc)
    \<and> js_le
      (calculateProbability v \<lparr>min_t = Fin lo, max_t = Fin hi\<rparr> (Fin (of_int c)) (Fin (of_int d)) asc)
      (Fin (of_int d))"
proof -
  obtain k where "calculateProbability v \<lparr>min_t = Fin lo, max_t = Fin hi\<rparr>
      (Fin (of_int c)) (Fin (of_int d)) asc = Fin (of_int k)" and "c \<le> k" and "k \<le> d"
    using calc_integer_range [OF assms(1,2,4-7)] by blast
  then show ?thesis by (simp add: js_le_def)
qed

theorem calculateProbability_bounds_witness:
  "is_double 1 \<and> is_double 25 \<and> (1 :: real) < 25 \<and> js_sub (Fin 25) (Fin 1) \<noteq> PosInf
   \<and> \<bar>10 :: int\<bar> \<le> 2 ^ 52 \<and> \<bar>95 :: int\<bar> \<le> 2 ^ 52 \<and> (10 :: int) \<le> 95
   \<and> js_le (Fin 10)
      (calculateProbability (Num (Fin 7)) \<lparr>min_t = Fin 1, max_t = Fin 25\<rparr> (Fin 10) (Fin 95) True)
   \<and> js_le
      (calculateProbability (Num (Fin 7)) \<lparr>min_t = Fin 1, max_t = Fin 25\<rparr> (Fin 10) (Fin 95) True)
      (Fin 95)"
  using calculateProbability_bounds [of 1 25 10 95 "Num (Fin 7)" True]
    dashboard_doubles(5,1) dashboard_widths(3)
  by simp

section \<open>The severity band\<close>

text \<open>
  Claim C4, as stated, lists \<open>severityOf(69) = low\<close> next to \<open>severityOf(69) = medium\<close>.
  The code puts 69 in the medium band.
\<close>

theorem getSeverity_69_counterexample:
  "getSeverity (Fin 69) \<noteq> Low"
  by (simp add: getSeverity_def js_ge_def)

text \<open>
  Claim C4, amended: for every score that is a number, the band is high exactly when the
  score is at least 70, medium exactly when it is at least 40 and below 70, and low
  exactly when it is below 40; 39 is low, 40 and 69 are medium, 70 is high.
\<close>

theorem getSeverity_cutoffs:
  assumes "p \<noteq> NaN"
  shows "(getSeverity p = High \<longleftrightarrow> js_ge p (Fin 70))
    \<and> (getSeverity p = Medium \<longleftrightarrow> js_le (Fin 40) p \<and> js_lt p (Fin 70))
    \<and> (getSeverity p = Low \<longleftrightarrow> js_lt p (Fin 40))
    \<and> getSeverity (Fin 39) = Low \<and> getSeverity (Fin 40) = Medium
    \<and> getSeverity (Fin 69) = Medium \<and> getSeverity (Fin 70) = High"
  using assms by (cases p) (simp_all add: getSeverity_def js_cmp)

theorem getSeverity_cutoffs_witness:
  "Fin 55 \<noteq> NaN \<and> getSeverity (Fin 55) = Medium \<and> js_le (Fin 40) (Fin 55) \<and> js_lt (Fin 55) (Fin 70)
   \<and> \<not> js_ge (Fin 55) (Fin 70) \<and> \<not> js_lt (Fin 55) (Fin 40)"
  using getSeverity_cutoffs [of "Fin 55"] by (simp add: js_cmp)

text \<open>
  Claim C9. The band never falls when the score grows: for scores \<open>p \<le> q\<close> the band of
  \<open>p\<close> is at most the band of \<open>q\<close> in the order low, medium, high.
\<close>

theorem getSeverity_monotone:
  "js_le p q \<Longrightarrow> band (getSeverity p) \<le> band (getSeverity q)"
  by (cases p; cases q) (simp_all add: getSeverity_def js_cmp)

theorem getSeverity_monotone_witness:
  "js_le (Fin 30) (Fin 80) \<and> band (getSeverity (Fin 30)) \<le> band (getSeverity (Fin 80))
   \<and> js_le (Fin 45) (Fin 45) \<and> band (getSeverity (Fin 45)) \<le> band (getSeverity (Fin 45))"
  using getSeverity_monotone [of "Fin 30" "Fin 80"] getSeverity_monotone [of "Fin 45" "Fin 45"]
  by (simp add: js_le_def)

section \<open>The composite scores\<close>

text \<open>
  Claim C7. The storm score is the ascending score of the binary64 product of
  precipitation and wind speed over the range from 50 to 500 with the bounds 5 and 80,
  and the discomfort score is
  \<^verbatim>\<open>Math.min(99, Math.round((hot + wet) * 0.6 + (windy > 70 ? 10 : 0)))\<close>. On integer
  scores from 10 to 95, and so on the dashboard's own scores at every reading, the
  binary64 computation of the discomfort score returns what the formula gives over the
  reals with \<^const>\<open>round\<close> and \<^const>\<open>min\<close>. The fifth and the sixth entry of the
  result carry the two scores. Rain 25 with wind 60 gives the storm score 80 and the
  severity high; rain 7 with wind 41 gives 44.
\<close>

theorem composite_scores:
  "stormProb rain wind =
     calculateProbability (Num (js_mul (ToNumber rain) (ToNumber wind)))
       \<lparr>min_t = Fin 50, max_t = Fin 500\<rparr> (Fin 5) (Fin 80) True
   \<and> stormProb (Num (Fin r)) (Num (Fin w)) =
     calculateProbability (Num (fl (r * w))) \<lparr>min_t = Fin 50, max_t = Fin 500\<rparr> (Fin 5) (Fin 80) True
   \<and> uncomfortableProb hot wet windy =
     Math_min (Fin 99) (Math_round (js_add (js_mul (js_add hot wet) (fl 0.6))
       (if js_gt windy (Fin 70) then Fin 10 else Fin 0)))
   \<and> (10 \<le> h \<and> h \<le> 95 \<and> 10 \<le> e \<and> e \<le> 95 \<longrightarrow>
       uncomfortableProb (Fin (of_int h)) (Fin (of_int e)) windy =
         Fin (of_int (min 99 (round (of_int (h + e) * (6 / 10)
           + (if js_gt windy (Fin 70) then 10 else 0 :: real))))))
   \<and> (\<exists>a b :: int. hotProb maxTemp = Fin (of_int a) \<and> wetProb rain = Fin (of_int b)
       \<and> uncomfortableProb (hotProb maxTemp) (wetProb rain) (windyProb wind) =
         Fin (of_int (min 99 (round (of_int (a + b) * (6 / 10)
           + (if js_gt (windyProb wind) (Fin 70) then 10 else 0 :: real))))))
   \<and> map probability (processed maxTemp minTemp rain wind) ! 4 = stormProb rain wind
   \<and> map probability (processed maxTemp minTemp rain wind) ! 5 =
     uncomfortableProb (hotProb maxTemp) (wetProb rain) (windyProb wind)
   \<and> stormProb (Num (Fin 25)) (Num (Fin 60)) = Fin 80
   \<and> processed maxTemp minTemp (Num (Fin 25)) (Num (Fin 60)) ! 4 =
     \<lparr>condition = ''Cloudy'', probability = Fin 80, severity = High\<rparr>
   \<and> stormProb (Num (Fin 7)) (Num (Fin 41)) = Fin 44"
proof -
  have storm: "stormProb (Num (Fin 25)) (Num (Fin 60)) = Fin 80"
    by (simp add: stormProb_def fl_eval calc_number js_cmp)
  have 1: "processed maxTemp minTemp (Num (Fin 25)) (Num (Fin 60)) ! 4 =
     \<lparr>condition = ''Cloudy'', probability = Fin 80, severity = High\<rparr>"
    by (simp add: processed_def entry_def storm getSeverity_def js_ge_def)
  have 2: "10 \<le> h \<and> h \<le> 95 \<and> 10 \<le> e \<and> e \<le> 95 \<longrightarrow>
       uncomfortableProb (Fin (of_int h)) (Fin (of_int e)) windy =
         Fin (of_int (min 99 (round (of_int (h + e) * (6 / 10)
           + (if js_gt windy (Fin 70) then 10 else 0 :: real)))))"
    using discomfort_integer_scores [of h e windy] by blast
  obtain a b where ab: "hotProb maxTemp = Fin (of_int a)" "10 \<le> a" "a \<le> 95"
    "wetProb rain = Fin (of_int b)" "10 \<le> b" "b \<le> 95"
    using dashboard_scores(1) [of maxTemp] dashboard_scores(3) [of rain] by blast
  have "uncomfortableProb (hotProb maxTemp) (wetProb rain) (windyProb wind) =
         Fin (of_int (min 99 (round (of_int (a + b) * (6 / 10)
           + (if js_gt (windyProb wind) (Fin 70) then 10 else 0 :: real)))))"
    unfolding ab(1,4) using ab(2,3,5,6) by (rule discomfort_integer_scores)
  then have 3: "\<exists>a b :: int. hotProb maxTemp = Fin (of_int a) \<and> wetProb rain = Fin (of_int b)
       \<and> uncomfortableProb (hotProb maxTemp) (wetProb rain) (windyProb wind) =
         Fin (of_int (min 99 (round (of_int (a + b) * (6 / 10)
           + (if js_gt (windyProb wind) (Fin 70) then 10 else 0 :: real)))))"
    using ab(1,4) by blast
  have 4: "map probability (processed maxTemp minTemp rain wind) ! 4 = stormProb rain wind"
    "map probability (processed maxTemp minTemp rain wind) ! 5 =
     uncomfortableProb (hotProb maxTemp) (wetProb rain) (windyProb wind)"
    by (simp_all add: processed_def entry_def)
  have 5: "stormProb (Num (Fin r)) (Num (Fin w)) =
     calculateProbability (Num (fl (r * w))) \<lparr>min_t = Fin 50, max_t = Fin 500\<rparr> (Fin 5) (Fin 80) True"
    by (simp add: stormProb_def)
  have 6: "stormProb (Num (Fin 7)) (Num (Fin 41)) = Fin 44"
    by (simp add: stormProb_def score_eval)
  have 7: "stormProb rain wind =
     calculateProbability (Num (js_mul (ToNumber rain) (ToNumber wind)))
       \<lparr>min_t = Fin 50, max_t = Fin 500\<rparr> (Fin 5) (Fin 80) True"
    by (simp add: stormProb_def)
  have 8: "uncomfortableProb hot wet windy =
     Math_min (Fin 99) (Math_round (js_add (js_mul (js_add hot wet) (fl 0.6))
       (if js_gt windy (Fin 70) then Fin 10 else Fin 0)))"
    by (simp add: uncomfortableProb_def)
  from storm 1 2 3 4 5 6 7 8 show ?thesis by blast
qed

theorem composite_scores_witness:
  "(10 :: int) \<le> 20 \<and> (20 :: int) \<le> 95 \<and> (10 :: int) \<le> 30 \<and> (30 :: int) \<le> 95
   \<and> uncomfortableProb (Fin 20) (Fin 30) (Fin 80) = Fin 40
   \<and> uncomfortableProb (Fin 20) (Fin 30) (Fin 60) = Fin 30"
proof -
  have c: "10 \<le> h \<and> h \<le> 95 \<and> 10 \<le> e \<and> e \<le> 95 \<longrightarrow>
       uncomfortableProb (Fin (of_int h)) (Fin (of_int e)) windy =
         Fin (of_int (min 99 (round (of_int (h + e) * (6 / 10)
           + (if js_gt windy (Fin 70) then 10 else 0 :: real)))))" for h e :: int and windy
    by (rule composite_scores [THEN conjunct2, THEN conjunct2, THEN conjunct2, THEN conjunct1])
  have "uncomfortableProb (Fin 20) (Fin 30) (Fin 80) = Fin 40"
    using c [of 20 30 "Fin 80"] by (simp add: js_gt_def)
  moreover have "uncomfortableProb (Fin 20) (Fin 30) (Fin 60) = Fin 30"
    using c [of 20 30 "Fin 60"] by (simp add: js_gt_def)
  ultimately show ?thesis by simp
qed

text \<open>
  Claim C10. With the dashboard's ranges and bounds the discomfort score is an integer
  from 12 to 99, for all readings: the hot and the wet score are integers from 10 to 95,
  the bonus is 0 or 10, and the result is cut off at 99. Both ends are reached.
\<close>

theorem uncomfortableProb_range:
  "(10 \<le> h \<and> h \<le> 95 \<and> 10 \<le> e \<and> e \<le> 95 \<longrightarrow>
      (\<exists>k::int. uncomfortableProb (Fin (of_int h)) (Fin (of_int e)) y = Fin (of_int k)
         \<and> 12 \<le> k \<and> k \<le> 99))
   \<and> (\<exists>k::int. uncomfortableProb (hotProb maxTemp) (wetProb rain) (windyProb wind) = Fin (of_int k)
         \<and> 12 \<le> k \<and> k \<le> 99)
   \<and> uncomfortableProb (hotProb Null) (wetProb Null) (windyProb Null) = Fin 12
   \<and> uncomfortableProb (hotProb (Num (Fin 40))) (wetProb (Num (Fin 25))) (windyProb (Num (Fin 60)))
       = Fin 99"
proof -
  obtain a b where ab: "hotProb maxTemp = Fin (of_int a)" "10 \<le> a" "a \<le> 95"
    "wetProb rain = Fin (of_int b)" "10 \<le> b" "b \<le> 95"
    using dashboard_scores(1) [of maxTemp] dashboard_scores(3) [of rain] by blast
  have 1: "\<exists>k::int. uncomfortableProb (hotProb maxTemp) (wetProb rain) (windyProb wind) = Fin (of_int k)
         \<and> 12 \<le> k \<and> k \<le> 99"
    using discomfort_integer_range [OF ab(2,3,5,6)] ab(1,4) by simp
  have s: "hotProb Null = Fin (of_int 10)" "wetProb Null = Fin (of_int 10)" "windyProb Null = Fin 10"
    "hotProb (Num (Fin 40)) = Fin (of_int 95)" "wetProb (Num (Fin 25)) = Fin (of_int 95)"
    "windyProb (Num (Fin 60)) = Fin 95"
    by (simp_all add: hotProb_def wetProb_def windyProb_def calc_missing calc_number js_cmp)
  have 2: "uncomfortableProb (hotProb Null) (wetProb Null) (windyProb Null) = Fin 12"
    unfolding s by (subst discomfort_integer_scores) (simp_all add: js_gt_def)
  have 3: "uncomfortableProb (hotProb (Num (Fin 40))) (wetProb (Num (Fin 25))) (windyProb (Num (Fin 60)))
       = Fin 99"
    unfolding s by (subst discomfort_integer_scores) (simp_all add: js_gt_def)
  from 1 2 3 show ?thesis
    using discomfort_integer_range [of h e y] by blast
qed

theorem uncomfortableProb_range_witness:
  "(10 :: int) \<le> 20 \<and> (20 :: int) \<le> 95 \<and> (10 :: int) \<le> 30 \<and> (30 :: int) \<le> 95
   \<and> js_le (Fin 12) (uncomfortableProb (Fin 20) (Fin 30) (Fin 80))
   \<and> js_le (uncomfortableProb (Fin 20) (Fin 30) (Fin 80)) (Fin 99)"
proof -
  from uncomfortableProb_range [of 20 30 "Fin 80" Null Null Null]
  obtain k :: int where "uncomfortableProb (Fin 20) (Fin 30) (Fin 80) = Fin (of_int k)"
    and "12 \<le> k" and "k \<le> 99"
    by auto
  then show ?thesis by (simp add: js_le_def)
qed

end
